theory Spec2Isabelle
  imports Main "HOL-Library.Sublist" "HOL-Library.Char_ord" "HOL-Library.List_Lexorder"
begin

section \<open>Schema synchronisation of the sql-connector model layer\<close>

text \<open>
  This theory embeds the schema synchronisation code of \<^verbatim>\<open>src/models/Model.js\<close>:
  the column-definition compiler \<^verbatim>\<open>getColumnDefinition\<close>, the reserved keyword check,
  \<^verbatim>\<open>generateCreateTableStatement\<close> and the static method \<^verbatim>\<open>syncAllTables\<close>.

  Conventions of the embedding.
  \<^item> A field of a schema is a descriptor object (the interface \<^verbatim>\<open>SchemaField\<close> of
    \<^verbatim>\<open>index.d.ts\<close>). Properties that the code only tests for truthiness are strings or
    lists whose empty value stands for every falsy value (\<^verbatim>\<open>undefined\<close>, the empty
    string, a value that is not an array).
  \<^item> A JavaScript object used as a dictionary is an association list in the order
    \<^verbatim>\<open>Object.keys\<close> enumerates it. Keys are taken to be ordinary names: the members that
    every object inherits from \<^verbatim>\<open>Object.prototype\<close> are not modelled.
  \<^item> A thrown \<^verbatim>\<open>Error\<close> is the left injection of a sum; the message is a constructor of
    \<open>error\<close> carrying the names the message interpolates.
\<close>

subsection \<open>Field descriptors and the type catalogue\<close>

datatype jsdefault = Absent | Null | Val string

record descriptor =
  f_type :: string
  f_length :: "int option"
  f_required :: bool
  f_default :: jsdefault
  f_unique :: bool
  f_auto_increment :: bool
  f_primary_key :: bool
  f_foreignKey :: string
  f_enum :: "string list"
  f_oldName :: string
  f_customize :: string

datatype error =
    ConflictingConstraint string
  | UnsupportedType string
  | NoTypeDefined string
  | CyclicDependency
  | TypeError
  | DriverError

text \<open>\<^verbatim>\<open>sqlTypeMap\<close> of \<^verbatim>\<open>src/utils/sqlTypeMap.js\<close>.\<close>

definition sqlTypeMap :: "string \<Rightarrow> string option" where
  "sqlTypeMap n =
     (if n = ''String'' then Some ''VARCHAR''
      else if n = ''Number'' then Some ''INT''
      else if n = ''Boolean'' then Some ''BOOLEAN''
      else if n = ''Date'' then Some ''DATETIME''
      else if n = ''Object'' then Some ''JSON''
      else if n = ''Array'' then Some ''VARCHAR''
      else if n = ''Now'' then Some ''NOW()''
      else if n = ''Float'' then Some ''FLOAT''
      else if n = ''Text'' then Some ''TEXT''
      else if n = ''DateTime'' then Some ''DATETIME''
      else if n = ''Timestamp'' then Some ''TIMESTAMP''
      else None)"

text \<open>
  \<^verbatim>\<open>getFieldType\<close> on a descriptor object: the name of \<^verbatim>\<open>field.type\<close> when it is a
  constructor, the value itself when it is a string. \<open>f_type\<close> holds that name; the empty
  string stands for a missing type.
\<close>

definition getFieldType :: "descriptor \<Rightarrow> string" where
  "getFieldType field = f_type field"

text \<open>
  A positive whole number interpolated into a template literal is written in decimal
  digits. The compiler interpolates only \<^verbatim>\<open>field.length\<close> when it is positive, and 255.
\<close>

definition digit :: "nat \<Rightarrow> char" where
  "digit d = ''0123456789'' ! d"

fun decimal :: "nat \<Rightarrow> string" where
  "decimal n = (if n div 10 = 0 then [digit n] else decimal (n div 10) @ [digit (n mod 10)])"

declare decimal.simps [simp del]

text \<open>\<^verbatim>\<open>s.replace(/'/g, "''")\<close>: every single quote is doubled.\<close>

fun escapeQuote :: "string \<Rightarrow> string" where
  "escapeQuote [] = []"
| "escapeQuote (c # cs) =
     (if c = CHR 0x27 then CHR 0x27 # CHR 0x27 # escapeQuote cs else c # escapeQuote cs)"

text \<open>\<^verbatim>\<open>xs.join(", ")\<close>.\<close>

fun join_comma :: "string list \<Rightarrow> string" where
  "join_comma [] = []"
| "join_comma [x] = x"
| "join_comma (x # y # ys) = x @ '', '' @ join_comma (y # ys)"

definition enumValues :: "string list \<Rightarrow> string" where
  "enumValues vs = join_comma (map (\<lambda>v. [CHR 0x27] @ escapeQuote v @ [CHR 0x27]) vs)"

subsection \<open>The column-definition compiler\<close>

text \<open>
  The type part of \<^verbatim>\<open>getColumnDefinition\<close>: an \<^verbatim>\<open>ENUM(...)\<close> clause when the descriptor
  lists enum values, the native type of the catalogue otherwise, with a length for
  \<^verbatim>\<open>VARCHAR\<close> and \<^verbatim>\<open>INT\<close> (255 when the length is missing or not positive).
\<close>

definition typeClause :: "string \<Rightarrow> descriptor \<Rightarrow> error + string" where
  "typeClause fieldName field =
     (if f_enum field \<noteq> [] then Inr (''ENUM('' @ enumValues (f_enum field) @ '')'')
      else case sqlTypeMap (getFieldType field) of
          None \<Rightarrow> Inl (UnsupportedType fieldName)
        | Some t \<Rightarrow>
            Inr (t @ (if t = ''VARCHAR'' \<or> t = ''INT''
                      then ''('' @ decimal
                             (case f_length field of
                                None \<Rightarrow> 255
                              | Some l \<Rightarrow> if l > 0 then nat l else 255) @ '')''
                      else [])))"

definition defaultClause :: "jsdefault \<Rightarrow> string" where
  "defaultClause d =
     (case d of
        Absent \<Rightarrow> []
      | Null \<Rightarrow> '' DEFAULT NULL''
      | Val v \<Rightarrow> '' DEFAULT '' @ [CHR 0x22] @ v @ [CHR 0x22])"

definition getColumnDefinition :: "string \<Rightarrow> descriptor \<Rightarrow> error + string" where
  "getColumnDefinition fieldName field =
     (if f_primary_key field \<and> f_unique field then Inl (ConflictingConstraint fieldName)
      else case typeClause fieldName field of
          Inl e \<Rightarrow> Inl e
        | Inr colDef \<Rightarrow>
            Inr (fieldName @ '' '' @ colDef
                 @ (if f_required field then '' NOT NULL'' else [])
                 @ defaultClause (f_default field)
                 @ (if f_unique field then '' UNIQUE'' else [])
                 @ (if f_auto_increment field then '' AUTO_INCREMENT'' else [])
                 @ (if f_primary_key field then '' PRIMARY KEY'' else [])
                 @ (if f_customize field \<noteq> [] then '' '' @ f_customize field else [])))"

text \<open>
  Sample descriptors: \<^verbatim>\<open>{}\<close> with no property set, \<^verbatim>\<open>{type: Number, primary_key: true}\<close>
  and \<^verbatim>\<open>{type: String, length: 50, required: true}\<close>.
\<close>

definition no_properties :: descriptor where
  "no_properties =
     \<lparr>f_type = [], f_length = None, f_required = False, f_default = Absent,
      f_unique = False, f_auto_increment = False, f_primary_key = False,
      f_foreignKey = [], f_enum = [], f_oldName = [], f_customize = []\<rparr>"

definition pk_number :: descriptor where
  "pk_number = no_properties\<lparr>f_type := ''Number'', f_primary_key := True\<rparr>"

definition required_string :: descriptor where
  "required_string = no_properties\<lparr>f_type := ''String'', f_length := Some 50, f_required := True\<rparr>"

text \<open>
  The strings of a descriptor that the compiler copies into the clause: the field name,
  the \<^verbatim>\<open>customize\<close> suffix, a default that is not \<^verbatim>\<open>null\<close>, and the enum values.
  \<open>owner_key\<close> is \<^verbatim>\<open>{type: Number, primary_key: true, default: "NONE", customize: "COMMENT ON"}\<close>.
  \<open>spaced\<close> holds of what the compiler appends after the type: nothing, or text that
  begins with a space.
\<close>

definition ownStrings :: "string \<Rightarrow> descriptor \<Rightarrow> string list" where
  "ownStrings fieldName field =
     fieldName # f_customize field
       # (case f_default field of Val v \<Rightarrow> [v] | _ \<Rightarrow> []) @ f_enum field"

definition owner_key :: descriptor where
  "owner_key = pk_number\<lparr>f_default := Val ''NONE'', f_customize := ''COMMENT ON''\<rparr>"

definition spaced :: "string \<Rightarrow> bool" where
  "spaced t = (t = [] \<or> hd t = CHR '' '')"

text \<open>
  Where the words \<^verbatim>\<open>NOT NULL\<close> can stand in a text that is put together from parts: a
  separator that is not in the words splits every occurrence between the two sides,
  and across a space they can only stand as \<^verbatim>\<open>NOT\<close> before it and \<^verbatim>\<open>NULL\<close> after it.
\<close>

lemma split_unique:
  assumes "xs @ c # ys = us @ c # vs" and "c \<notin> set us" and "c \<notin> set vs"
  shows "xs = us \<and> ys = vs"
proof -
  from assms(1) obtain w where
    w: "(xs = us @ w \<and> w @ c # ys = c # vs) \<or> (xs @ w = us \<and> c # ys = w @ c # vs)"
    by (auto simp: append_eq_append_conv2)
  show ?thesis
  proof (cases w)
    case Nil
    with w show ?thesis by auto
  next
    case (Cons a w')
    with w assms(2,3) show ?thesis by auto
  qed
qed

lemma sublist_sep:
  assumes "c \<notin> set p"
  shows "sublist p (xs @ c # ys) \<longleftrightarrow> sublist p xs \<or> sublist p ys"
proof
  assume "sublist p (xs @ c # ys)"
  then consider "sublist p xs" | "sublist p (c # ys)"
    | p1 p2 where "p = p1 @ p2" "suffix p1 xs" "prefix p2 (c # ys)"
    by (auto simp: sublist_append)
  then show "sublist p xs \<or> sublist p ys"
  proof cases
    case 2
    then have "prefix p (c # ys) \<or> sublist p ys" by (simp add: sublist_Cons_right)
    with assms show ?thesis by (cases p) auto
  next
    case 3
    with assms have "p2 = []" by (cases p2) auto
    with 3 show ?thesis by (auto simp: suffix_def)
  qed simp
next
  assume "sublist p xs \<or> sublist p ys"
  then show "sublist p (xs @ c # ys)"
    by (auto simp: sublist_append sublist_Cons_right)
qed

lemma NOT_NULL_space:
  "sublist ''NOT NULL'' (xs @ CHR '' '' # ys) \<longleftrightarrow>
     sublist ''NOT NULL'' xs \<or> sublist ''NOT NULL'' ys \<or> (suffix ''NOT'' xs \<and> prefix ''NULL'' ys)"
proof
  assume "sublist ''NOT NULL'' (xs @ CHR '' '' # ys)"
  then consider "sublist ''NOT NULL'' xs" | "sublist ''NOT NULL'' (CHR '' '' # ys)"
    | p1 p2 where "''NOT NULL'' = p1 @ p2" "suffix p1 xs" "prefix p2 (CHR '' '' # ys)"
    by (auto simp: sublist_append)
  then show "sublist ''NOT NULL'' xs \<or> sublist ''NOT NULL'' ys
               \<or> (suffix ''NOT'' xs \<and> prefix ''NULL'' ys)"
  proof cases
    case 2
    then show ?thesis by (simp add: sublist_Cons_right)
  next
    case 3
    show ?thesis
    proof (cases p2)
      case Nil
      with 3 show ?thesis by (auto simp: suffix_def)
    next
      case (Cons a p2')
      with 3(3) have a: "a = CHR '' ''" and rest: "prefix p2' ys" by simp_all
      from 3(1) Cons a have "p1 @ CHR '' '' # p2' = ''NOT'' @ CHR '' '' # ''NULL''" by simp
      then have "p1 = ''NOT'' \<and> p2' = ''NULL''"
        by (rule split_unique) simp_all
      with 3(2) rest show ?thesis by simp
    qed
  qed simp
next
  assume "sublist ''NOT NULL'' xs \<or> sublist ''NOT NULL'' ys
            \<or> (suffix ''NOT'' xs \<and> prefix ''NULL'' ys)"
  then consider "sublist ''NOT NULL'' xs" | "sublist ''NOT NULL'' ys"
    | "suffix ''NOT'' xs" "prefix ''NULL'' ys"
    by blast
  then show "sublist ''NOT NULL'' (xs @ CHR '' '' # ys)"
  proof cases
    case 3
    then obtain a b where "xs = a @ ''NOT''" "ys = ''NULL'' @ b"
      by (auto simp: suffix_def prefix_def)
    then have "xs @ CHR '' '' # ys = a @ ''NOT NULL'' @ b" by simp
    then show ?thesis by (simp only: sublist_appendI)
  qed (auto simp: sublist_append sublist_Cons_right)
qed

lemma NOT_NULL_tail:
  assumes "\<not> suffix ''NOT'' x" and "t = [] \<or> hd t = CHR '' ''"
  shows "sublist ''NOT NULL'' (x @ t) \<longleftrightarrow> sublist ''NOT NULL'' x \<or> sublist ''NOT NULL'' t"
proof (cases t)
  case Nil
  then show ?thesis by simp
next
  case (Cons a r)
  with assms(2) have t: "t = CHR '' '' # r" by simp
  have "sublist ''NOT NULL'' t \<longleftrightarrow> sublist ''NOT NULL'' r"
    unfolding t by (simp add: sublist_Cons_right)
  with assms(1) show ?thesis unfolding t by (simp add: NOT_NULL_space)
qed

lemma NOT_NULL_head:
  assumes "\<not> prefix ''NULL'' r"
  shows "sublist ''NOT NULL'' (x @ CHR '' '' # r) \<longleftrightarrow> sublist ''NOT NULL'' x \<or> sublist ''NOT NULL'' r"
  using assms by (simp add: NOT_NULL_space)

lemma prefix_escapeQuote:
  "CHR 0x27 \<notin> set p \<Longrightarrow> prefix p (escapeQuote s) \<longleftrightarrow> prefix p s"
proof (induction s arbitrary: p)
  case Nil
  then show ?case by simp
next
  case (Cons c cs)
  show ?case
  proof (cases p)
    case Nil
    then show ?thesis by simp
  next
    case (Cons a p')
    with Cons.prems have "a \<noteq> CHR 0x27" "CHR 0x27 \<notin> set p'" by auto
    with Cons.IH [of p'] Cons show ?thesis by auto
  qed
qed

lemma sublist_escapeQuote:
  assumes "CHR 0x27 \<notin> set p"
  shows "sublist p (escapeQuote s) \<longleftrightarrow> sublist p s"
proof (induction s)
  case Nil
  then show ?case by simp
next
  case (Cons c cs)
  show ?case
  proof (cases "c = CHR 0x27")
    case True
    have "sublist p (CHR 0x27 # CHR 0x27 # escapeQuote cs) \<longleftrightarrow> sublist p (escapeQuote cs)"
      using sublist_sep [OF assms, of "[CHR 0x27]" "escapeQuote cs"]
            sublist_sep [OF assms, of "[]" "[]"] sublist_sep [OF assms, of "[]" "escapeQuote cs"]
      by auto
    moreover have "sublist p (CHR 0x27 # cs) \<longleftrightarrow> sublist p cs"
      using sublist_sep [OF assms, of "[]" cs] by auto
    ultimately show ?thesis using True Cons.IH by simp
  next
    case False
    have "prefix p (c # escapeQuote cs) \<longleftrightarrow> prefix p (c # cs)"
      using prefix_escapeQuote [OF assms, of "c # cs"] False by simp
    with False Cons.IH show ?thesis by (simp add: sublist_Cons_right)
  qed
qed

lemma sublist_join_comma:
  assumes "CHR '','' \<notin> set p" and "p \<noteq> []" and "hd p \<noteq> CHR '' ''"
  shows "sublist p (join_comma xs) \<longleftrightarrow> (\<exists>x \<in> set xs. sublist p x)"
proof (induction xs rule: join_comma.induct)
  case 1
  from assms(2) show ?case by simp
next
  case (2 x)
  then show ?case by simp
next
  case (3 x y ys)
  have "join_comma (x # y # ys) = x @ CHR '','' # (CHR '' '' # join_comma (y # ys))" by simp
  moreover have "sublist p (CHR '' '' # join_comma (y # ys)) \<longleftrightarrow> sublist p (join_comma (y # ys))"
    using assms(2,3) by (cases p) (auto simp: sublist_Cons_right)
  ultimately have "sublist p (join_comma (x # y # ys))
      \<longleftrightarrow> sublist p x \<or> sublist p (join_comma (y # ys))"
    using sublist_sep [OF assms(1), of x "CHR '' '' # join_comma (y # ys)"] by simp
  with 3 show ?case by auto
qed

lemma NOT_NULL_enumValues:
  "sublist ''NOT NULL'' (enumValues vs) \<longleftrightarrow> (\<exists>v \<in> set vs. sublist ''NOT NULL'' v)"
proof -
  have q: "sublist ''NOT NULL'' ([CHR 0x27] @ escapeQuote v @ [CHR 0x27]) \<longleftrightarrow> sublist ''NOT NULL'' v" for v
  proof -
    have "sublist ''NOT NULL'' ([] @ CHR 0x27 # (escapeQuote v @ CHR 0x27 # []))
            \<longleftrightarrow> sublist ''NOT NULL'' (escapeQuote v)"
      by (subst sublist_sep, simp, subst sublist_sep, simp_all)
    then show ?thesis by (simp add: sublist_escapeQuote)
  qed
  have "sublist ''NOT NULL'' (enumValues vs)
          \<longleftrightarrow> (\<exists>x \<in> set (map (\<lambda>v. [CHR 0x27] @ escapeQuote v @ [CHR 0x27]) vs). sublist ''NOT NULL'' x)"
    unfolding enumValues_def by (rule sublist_join_comma) simp_all
  with q show ?thesis by (simp del: append.simps)
qed

lemma digits_decimal: "set (decimal n) \<subseteq> set ''0123456789''"
proof (induction n rule: decimal.induct)
  case (1 n)
  have d: "digit k \<in> set ''0123456789''" if "k < 10" for k
    unfolding digit_def using that by (intro nth_mem) simp
  show ?case
  proof (cases "n div 10 = 0")
    case True
    then have "n < 10" by simp
    with True d [of n] show ?thesis by (subst decimal.simps) simp
  next
    case False
    with "1.IH" d [of "n mod 10"] show ?thesis by (subst decimal.simps) simp
  qed
qed

lemma NOT_NULL_needs_N: "sublist ''NOT NULL'' s \<Longrightarrow> CHR ''N'' \<in> set s"
  by (auto simp: sublist_def)

lemma NOT_NULL_decimal: "\<not> sublist ''NOT NULL'' (decimal n)"
  using digits_decimal [of n] by (auto dest!: NOT_NULL_needs_N)

lemma sqlTypeMap_range:
  "sqlTypeMap n = Some t \<Longrightarrow>
   t \<in> set [''VARCHAR'', ''INT'', ''BOOLEAN'', ''DATETIME'', ''JSON'', ''NOW()'', ''FLOAT'', ''TEXT'',
            ''TIMESTAMP'']"
  by (auto simp: sqlTypeMap_def split: if_splits)

lemma native_types_plain:
  "\<forall>t \<in> set [''VARCHAR'', ''INT'', ''BOOLEAN'', ''DATETIME'', ''JSON'', ''NOW()'', ''FLOAT'', ''TEXT'',
            ''TIMESTAMP''].
     \<not> sublist ''NOT NULL'' t \<and> \<not> suffix ''NOT'' t \<and> \<not> prefix ''NU'' t \<and> 2 \<le> length t"
  by code_simp

lemma not_prefix_NULL: "\<not> prefix ''NU'' t \<Longrightarrow> 2 \<le> length t \<Longrightarrow> \<not> prefix ''NULL'' (t @ s)"
proof -
  assume a: "\<not> prefix ''NU'' t" and l: "2 \<le> length t"
  from l obtain x y r where t: "t = x # y # r"
    by (cases t; cases "tl t") auto
  with a show ?thesis by auto
qed

text \<open>The type part: where it can hold the words, and how it begins and ends.\<close>

lemma NOT_NULL_typeClause:
  assumes "typeClause fieldName field = Inr c"
  shows "sublist ''NOT NULL'' c \<longleftrightarrow> (\<exists>v \<in> set (f_enum field). sublist ''NOT NULL'' v)"
    and "\<not> suffix ''NOT'' c" and "\<not> prefix ''NULL'' (c @ s)"
proof -
  have "(sublist ''NOT NULL'' c \<longleftrightarrow> (\<exists>v \<in> set (f_enum field). sublist ''NOT NULL'' v))
        \<and> \<not> suffix ''NOT'' c \<and> \<not> prefix ''NULL'' (c @ s)"
  proof (cases "f_enum field = []")
    case False
    with assms have c: "c = ''ENUM('' @ enumValues (f_enum field) @ '')''"
      by (simp add: typeClause_def)
    have "sublist ''NOT NULL'' (''ENUM'' @ CHR ''('' # (enumValues (f_enum field) @ CHR '')'' # []))
            \<longleftrightarrow> sublist ''NOT NULL'' (enumValues (f_enum field))"
    proof -
      have "\<not> sublist ''NOT NULL'' ''ENUM''" by code_simp
      then show ?thesis by (subst sublist_sep, simp, subst sublist_sep, simp_all)
    qed
    then have "sublist ''NOT NULL'' c \<longleftrightarrow> (\<exists>v \<in> set (f_enum field). sublist ''NOT NULL'' v)"
      unfolding c by (simp add: NOT_NULL_enumValues)
    moreover have "\<not> suffix ''NOT'' c"
      unfolding c by (auto simp: suffix_def)
    moreover have "\<not> prefix ''NULL'' (c @ s)"
      unfolding c by simp
    ultimately show ?thesis by blast
  next
    case True
    with assms obtain t where t: "sqlTypeMap (getFieldType field) = Some t"
      and c: "c = t @ (if t = ''VARCHAR'' \<or> t = ''INT''
                      then ''('' @ decimal
                             (case f_length field of
                                None \<Rightarrow> 255
                              | Some l \<Rightarrow> if l > 0 then nat l else 255) @ '')''
                      else [])"
      by (auto simp: typeClause_def split: option.splits)
    from sqlTypeMap_range [OF t] native_types_plain
    have plain: "\<not> sublist ''NOT NULL'' t" "\<not> suffix ''NOT'' t" "\<not> prefix ''NU'' t" "2 \<le> length t"
      by blast+
    have sized: "\<not> sublist ''NOT NULL'' (t @ CHR ''('' # (decimal l @ CHR '')'' # []))" for l
      using plain(1) NOT_NULL_decimal [of l]
      by (subst sublist_sep, simp, subst sublist_sep, simp_all)
    have "\<not> sublist ''NOT NULL'' c"
      unfolding c using plain(1) sized by simp
    moreover have "\<not> suffix ''NOT'' c"
      unfolding c using plain(2) by (auto simp: suffix_def)
    moreover have "\<not> prefix ''NULL'' (c @ s)"
      unfolding c using not_prefix_NULL [OF plain(3,4)] by simp
    ultimately show ?thesis using True by simp
  qed
  then show "sublist ''NOT NULL'' c \<longleftrightarrow> (\<exists>v \<in> set (f_enum field). sublist ''NOT NULL'' v)"
    and "\<not> suffix ''NOT'' c" and "\<not> prefix ''NULL'' (c @ s)"
    by blast+
qed

lemma spaced_keyword:
  "k \<noteq> [] \<Longrightarrow> hd k = CHR '' '' \<Longrightarrow> spaced t \<Longrightarrow> spaced ((if b then k else []) @ t)"
  by (simp add: spaced_def)

lemma NOT_NULL_keyword:
  assumes "\<not> sublist ''NOT NULL'' k" and "\<not> suffix ''NOT'' k" and "spaced t"
  shows "sublist ''NOT NULL'' ((if b then k else []) @ t) \<longleftrightarrow> sublist ''NOT NULL'' t"
  using NOT_NULL_tail [OF assms(2), of t] assms(1,3) by (simp add: spaced_def)

lemma spaced_defaultClause: "spaced t \<Longrightarrow> spaced (defaultClause d @ t)"
  by (cases d) (simp_all add: defaultClause_def spaced_def)

lemma NOT_NULL_defaultClause:
  assumes "spaced t"
  shows "sublist ''NOT NULL'' (defaultClause d @ t)
           \<longleftrightarrow> (\<exists>v. d = Val v \<and> sublist ''NOT NULL'' v) \<or> sublist ''NOT NULL'' t"
proof (cases d)
  case Absent
  then show ?thesis by (simp add: defaultClause_def)
next
  case Null
  have "\<not> sublist ''NOT NULL'' '' DEFAULT NULL''" "\<not> suffix ''NOT'' '' DEFAULT NULL''"
    by code_simp+
  from NOT_NULL_keyword [OF this assms, of True] Null show ?thesis
    by (simp add: defaultClause_def)
next
  case (Val v)
  let ?x = "'' DEFAULT '' @ [CHR 0x22] @ v @ [CHR 0x22]"
  have "\<not> sublist ''NOT NULL'' '' DEFAULT ''" by code_simp
  then have "sublist ''NOT NULL'' ('' DEFAULT '' @ CHR 0x22 # (v @ CHR 0x22 # []))
               \<longleftrightarrow> sublist ''NOT NULL'' v"
    by (subst sublist_sep, simp, subst sublist_sep, simp_all)
  then have x: "sublist ''NOT NULL'' ?x \<longleftrightarrow> sublist ''NOT NULL'' v" by simp
  have "\<not> suffix ''NOT'' ?x" by (auto simp: suffix_def)
  from NOT_NULL_tail [OF this, of t] assms x Val show ?thesis
    by (simp add: defaultClause_def spaced_def)
qed

lemma getColumnDefinition_Inr:
  assumes "getColumnDefinition fieldName field = Inr clause"
  shows "\<exists>colDef. typeClause fieldName field = Inr colDef \<and>
           clause = fieldName @ '' '' @ colDef
                 @ (if f_required field then '' NOT NULL'' else [])
                 @ defaultClause (f_default field)
                 @ (if f_unique field then '' UNIQUE'' else [])
                 @ (if f_auto_increment field then '' AUTO_INCREMENT'' else [])
                 @ (if f_primary_key field then '' PRIMARY KEY'' else [])
                 @ (if f_customize field \<noteq> [] then '' '' @ f_customize field else [])"
proof (cases "f_primary_key field \<and> f_unique field")
  case True
  then have "getColumnDefinition fieldName field = Inl (ConflictingConstraint fieldName)"
    by (simp add: getColumnDefinition_def)
  with assms show ?thesis by simp
next
  case False
  show ?thesis
  proof (cases "typeClause fieldName field")
    case (Inl e)
    with False have "getColumnDefinition fieldName field = Inl e"
      by (auto simp: getColumnDefinition_def)
    with assms show ?thesis by simp
  next
    case (Inr colDef)
    have "getColumnDefinition fieldName field =
          Inr (fieldName @ '' '' @ colDef
                 @ (if f_required field then '' NOT NULL'' else [])
                 @ defaultClause (f_default field)
                 @ (if f_unique field then '' UNIQUE'' else [])
                 @ (if f_auto_increment field then '' AUTO_INCREMENT'' else [])
                 @ (if f_primary_key field then '' PRIMARY KEY'' else [])
                 @ (if f_customize field \<noteq> [] then '' '' @ f_customize field else []))"
      unfolding getColumnDefinition_def using False
      by (simp only: Inr if_False sum.case)
    with assms Inr show ?thesis
      by (simp only: sum.inject) blast
  qed
qed

lemma required_clause_has_NOT_NULL:
  assumes "getColumnDefinition fieldName field = Inr clause" and "f_required field"
  shows "sublist '' NOT NULL'' clause"
proof -
  from getColumnDefinition_Inr [OF assms(1)] assms(2)
  obtain colDef post where "clause = fieldName @ '' '' @ colDef @ '' NOT NULL'' @ post"
    by (simp only: if_True) blast
  then have "clause = (fieldName @ '' '' @ colDef) @ '' NOT NULL'' @ post"
    by (simp only: append_assoc)
  then show ?thesis unfolding sublist_def by blast
qed

lemma optional_clause_NOT_NULL:
  assumes "getColumnDefinition fieldName field = Inr clause" and "\<not> f_required field"
  shows "sublist ''NOT NULL'' clause
           \<longleftrightarrow> (\<exists>s \<in> set (ownStrings fieldName field). sublist ''NOT NULL'' s)"
proof -
  from getColumnDefinition_Inr [OF assms(1)] assms(2)
  obtain colDef where ty: "typeClause fieldName field = Inr colDef"
    and clause: "clause = fieldName @ '' '' @ colDef
                 @ defaultClause (f_default field)
                 @ (if f_unique field then '' UNIQUE'' else [])
                 @ (if f_auto_increment field then '' AUTO_INCREMENT'' else [])
                 @ (if f_primary_key field then '' PRIMARY KEY'' else [])
                 @ (if f_customize field \<noteq> [] then '' '' @ f_customize field else [])"
    by auto
  let ?C = "if f_customize field \<noteq> [] then '' '' @ f_customize field else []"
  let ?K = "(if f_primary_key field then '' PRIMARY KEY'' else []) @ ?C"
  let ?I = "(if f_auto_increment field then '' AUTO_INCREMENT'' else []) @ ?K"
  let ?U = "(if f_unique field then '' UNIQUE'' else []) @ ?I"
  let ?D = "defaultClause (f_default field) @ ?U"
  have C: "spaced ?C" "sublist ''NOT NULL'' ?C \<longleftrightarrow> sublist ''NOT NULL'' (f_customize field)"
    by (simp_all add: spaced_def sublist_Cons_right)
  have fixed: "\<not> sublist ''NOT NULL'' '' PRIMARY KEY''" "\<not> suffix ''NOT'' '' PRIMARY KEY''"
    "\<not> sublist ''NOT NULL'' '' AUTO_INCREMENT''" "\<not> suffix ''NOT'' '' AUTO_INCREMENT''"
    "\<not> sublist ''NOT NULL'' '' UNIQUE''" "\<not> suffix ''NOT'' '' UNIQUE''"
    by code_simp+
  have K: "spaced ?K" "sublist ''NOT NULL'' ?K \<longleftrightarrow> sublist ''NOT NULL'' ?C"
    using spaced_keyword [OF _ _ C(1)] NOT_NULL_keyword [OF fixed(1,2) C(1)] by simp_all
  have I: "spaced ?I" "sublist ''NOT NULL'' ?I \<longleftrightarrow> sublist ''NOT NULL'' ?K"
    using spaced_keyword [OF _ _ K(1)] NOT_NULL_keyword [OF fixed(3,4) K(1)] by simp_all
  have U: "spaced ?U" "sublist ''NOT NULL'' ?U \<longleftrightarrow> sublist ''NOT NULL'' ?I"
    using spaced_keyword [OF _ _ I(1)] NOT_NULL_keyword [OF fixed(5,6) I(1)] by simp_all
  have D: "spaced ?D" "sublist ''NOT NULL'' ?D
             \<longleftrightarrow> (\<exists>v. f_default field = Val v \<and> sublist ''NOT NULL'' v) \<or> sublist ''NOT NULL'' ?U"
    using spaced_defaultClause [OF U(1)] NOT_NULL_defaultClause [OF U(1)] by simp_all
  note ty' = NOT_NULL_typeClause [OF ty]
  have body: "sublist ''NOT NULL'' (colDef @ ?D)
                \<longleftrightarrow> sublist ''NOT NULL'' colDef \<or> sublist ''NOT NULL'' ?D"
    using NOT_NULL_tail [OF ty'(2), of ?D] D(1) by (simp add: spaced_def)
  have whole: "clause = fieldName @ CHR '' '' # (colDef @ ?D)"
    unfolding clause by simp
  have "\<not> prefix ''NULL'' (colDef @ ?D)" by (rule ty'(3))
  then have "sublist ''NOT NULL'' (fieldName @ CHR '' '' # (colDef @ ?D))
      \<longleftrightarrow> sublist ''NOT NULL'' fieldName \<or> sublist ''NOT NULL'' (colDef @ ?D)"
    by (rule NOT_NULL_head)
  then have "sublist ''NOT NULL'' clause
      \<longleftrightarrow> sublist ''NOT NULL'' fieldName \<or> sublist ''NOT NULL'' (colDef @ ?D)"
    by (simp only: whole)
  also have "\<dots> \<longleftrightarrow> sublist ''NOT NULL'' fieldName
      \<or> (\<exists>v \<in> set (f_enum field). sublist ''NOT NULL'' v)
      \<or> (\<exists>v. f_default field = Val v \<and> sublist ''NOT NULL'' v)
      \<or> sublist ''NOT NULL'' (f_customize field)"
    using body ty'(1) D(2) U(2) I(2) K(2) C(2) by blast
  also have "\<dots> \<longleftrightarrow> (\<exists>s \<in> set (ownStrings fieldName field). sublist ''NOT NULL'' s)"
    by (cases "f_default field") (auto simp: ownStrings_def)
  finally show ?thesis .
qed

lemma primary_key_clause:
  assumes "getColumnDefinition fieldName field = Inr clause" and "f_primary_key field"
  shows "sublist '' PRIMARY KEY'' clause"
proof -
  from getColumnDefinition_Inr [OF assms(1)] assms(2)
  obtain pre post where "clause = pre @ '' PRIMARY KEY'' @ post"
    by (simp only: if_True append_assoc [symmetric]) blast
  then show ?thesis unfolding sublist_def by blast
qed

text \<open>
  C2 (as the code has it). The compiler appends \<^verbatim>\<open>NOT NULL\<close> for a descriptor with
  \<open>required\<close> true, and for no other reason: when \<open>required\<close> is false the clause holds
  the words \<^verbatim>\<open>NOT NULL\<close> exactly when one of the descriptor's own strings (field name,
  enum value, default, customize suffix) holds them, whatever \<open>primary_key\<close> is. A
  descriptor with \<open>primary_key\<close> true has \<^verbatim>\<open>PRIMARY KEY\<close> in its clause.
\<close>

theorem getColumnDefinition_not_null_iff_required:
  assumes "getColumnDefinition fieldName field = Inr clause"
  shows "(f_required field \<longrightarrow> sublist '' NOT NULL'' clause)
       \<and> (\<not> f_required field \<longrightarrow>
            (sublist ''NOT NULL'' clause
               \<longleftrightarrow> (\<exists>s \<in> set (ownStrings fieldName field). sublist ''NOT NULL'' s)))
       \<and> (f_primary_key field \<longrightarrow> sublist '' PRIMARY KEY'' clause)"
  using assms required_clause_has_NOT_NULL optional_clause_NOT_NULL primary_key_clause
  by blast

theorem getColumnDefinition_not_null_iff_required_witness:
  "getColumnDefinition ''name'' required_string = Inr ''name VARCHAR(50) NOT NULL''
   \<and> sublist '' NOT NULL'' ''name VARCHAR(50) NOT NULL''
   \<and> getColumnDefinition ''Owner'' owner_key
       = Inr (''Owner INT(255) DEFAULT '' @ [CHR 0x22] @ ''NONE'' @ [CHR 0x22]
              @ '' PRIMARY KEY COMMENT ON'')
   \<and> \<not> sublist ''NOT NULL'' (''Owner INT(255) DEFAULT '' @ [CHR 0x22] @ ''NONE'' @ [CHR 0x22]
              @ '' PRIMARY KEY COMMENT ON'')
   \<and> sublist '' PRIMARY KEY'' (''Owner INT(255) DEFAULT '' @ [CHR 0x22] @ ''NONE'' @ [CHR 0x22]
              @ '' PRIMARY KEY COMMENT ON'')"
proof -
  let ?c = "''Owner INT(255) DEFAULT '' @ [CHR 0x22] @ ''NONE'' @ [CHR 0x22]
              @ '' PRIMARY KEY COMMENT ON''"
  have a: "getColumnDefinition ''name'' required_string = Inr ''name VARCHAR(50) NOT NULL''"
    by code_simp
  have b: "getColumnDefinition ''Owner'' owner_key = Inr ?c"
    by code_simp
  have ra: "f_required required_string"
    by (simp add: required_string_def)
  have rb: "\<not> f_required owner_key" "f_primary_key owner_key"
    by (simp_all add: owner_key_def pk_number_def no_properties_def)
  have own: "\<not> (\<exists>s \<in> set (ownStrings ''Owner'' owner_key). sublist ''NOT NULL'' s)"
    by code_simp
  from getColumnDefinition_not_null_iff_required [OF a] ra
       getColumnDefinition_not_null_iff_required [OF b] rb own a b
  show ?thesis by blast
qed

text \<open>
  C2 as stated fails: the descriptor \<^verbatim>\<open>{type: Number, primary_key: true}\<close> has
  \<open>primary_key\<close> true and \<open>required\<close> false, and its clause is
  \<^verbatim>\<open>id INT(255) PRIMARY KEY\<close>, without \<^verbatim>\<open>NOT NULL\<close>.
\<close>

theorem primary_key_clause_counterexample:
  "f_primary_key pk_number \<and> \<not> f_required pk_number
   \<and> getColumnDefinition ''id'' pk_number = Inr ''id INT(255) PRIMARY KEY''
   \<and> \<not> sublist ''NOT NULL'' ''id INT(255) PRIMARY KEY''"
proof -
  have "getColumnDefinition ''id'' pk_number = Inr ''id INT(255) PRIMARY KEY''"
    by code_simp
  moreover have "\<not> sublist ''NOT NULL'' ''id INT(255) PRIMARY KEY''"
    by code_simp
  moreover have "f_primary_key pk_number \<and> \<not> f_required pk_number"
    by (simp add: pk_number_def no_properties_def)
  ultimately show ?thesis by blast
qed

subsection \<open>Registered models and the dependency order\<close>

text \<open>
  A \<^verbatim>\<open>Model\<close> instance: its table name and \<^verbatim>\<open>schema.schemaDict\<close>, the fields in the
  order \<^verbatim>\<open>Object.entries\<close> gives them.
\<close>

record model =
  m_name :: string
  m_schemaDict :: "(string \<times> descriptor) list"

text \<open>
  Property keys of a JavaScript object. A key that is an array index (a canonical
  decimal numeral below \<open>2^32 - 1\<close>) is enumerated before every other key, in ascending
  numeric order; the other keys follow in the order of their creation. Assigning to a
  key that exists keeps its place.
\<close>

definition is_digit :: "char \<Rightarrow> bool" where
  "is_digit c = (c \<in> set ''0123456789'')"

definition index_value :: "string \<Rightarrow> nat" where
  "index_value s = foldl (\<lambda>acc c. 10 * acc + (of_char c - 48)) 0 s"

definition is_array_index :: "string \<Rightarrow> bool" where
  "is_array_index s =
     (s \<noteq> [] \<and> list_all is_digit s \<and> (s = ''0'' \<or> hd s \<noteq> CHR ''0'')
      \<and> index_value s < 4294967295)"

fun obj_insert :: "string \<Rightarrow> 'v \<Rightarrow> (string \<times> 'v) list \<Rightarrow> (string \<times> 'v) list" where
  "obj_insert k v [] = [(k, v)]"
| "obj_insert k v ((k', v') # r) =
     (if is_array_index k \<and> (\<not> is_array_index k' \<or> index_value k < index_value k')
      then (k, v) # (k', v') # r
      else (k', v') # obj_insert k v r)"

definition obj_put :: "string \<Rightarrow> 'v \<Rightarrow> (string \<times> 'v) list \<Rightarrow> (string \<times> 'v) list" where
  "obj_put k v obj =
     (if k \<in> fst ` set obj
      then map (\<lambda>(k', v'). (k', if k' = k then v else v')) obj
      else obj_insert k v obj)"

text \<open>
  \<^verbatim>\<open>field.foreignKey.split('(')[0].trim()\<close>: the text before the first parenthesis,
  without the white space around it.
\<close>

definition is_space :: "char \<Rightarrow> bool" where
  "is_space c = (c \<in> {CHR '' '', CHR 0x09, CHR 0x0A, CHR 0x0B, CHR 0x0C, CHR 0x0D})"

definition trim :: "string \<Rightarrow> string" where
  "trim s = rev (dropWhile is_space (rev (dropWhile is_space s)))"

definition refTable :: "string \<Rightarrow> string" where
  "refTable foreignKey = trim (takeWhile (\<lambda>c. c \<noteq> CHR ''('') foreignKey)"

text \<open>
  The first loop of \<^verbatim>\<open>syncAllTables\<close>: \<^verbatim>\<open>modelMap\<close> and \<^verbatim>\<open>dependencies\<close>, filled from
  \<^verbatim>\<open>Model.pendingModels\<close> in registration order.
\<close>

definition fieldDependencies :: "(string \<times> descriptor) list \<Rightarrow> string list" where
  "fieldDependencies schemaDict =
     map (\<lambda>(_, field). refTable (f_foreignKey field))
         (filter (\<lambda>(_, field). f_foreignKey field \<noteq> []) schemaDict)"

fun buildModelMap :: "model list \<Rightarrow> (string \<times> model) list \<Rightarrow> (string \<times> model) list" where
  "buildModelMap [] modelMap = modelMap"
| "buildModelMap (m # ms) modelMap = buildModelMap ms (obj_put (m_name m) m modelMap)"

fun buildDependencies ::
  "model list \<Rightarrow> (string \<times> string list) list \<Rightarrow> (string \<times> string list) list" where
  "buildDependencies [] dependencies = dependencies"
| "buildDependencies (m # ms) dependencies =
     buildDependencies ms (obj_put (m_name m) (fieldDependencies (m_schemaDict m)) dependencies)"

text \<open>
  The topological sort. \<^verbatim>\<open>visited[table]\<close> is \<^verbatim>\<open>undefined\<close>, \<^verbatim>\<open>'temp'\<close> or \<^verbatim>\<open>true\<close>; the
  state of the traversal is \<^verbatim>\<open>visited\<close> together with \<^verbatim>\<open>sorted\<close> (written \<open>srt\<close>). The recursion of
  \<^verbatim>\<open>visit\<close> is bounded by a call depth, and \<open>None\<close> is the result of a traversal that
  would go deeper.
\<close>

datatype mark = Temp | Done

type_synonym traversal = "(string \<rightharpoonup> mark) \<times> string list"

fun visit ::
    "nat \<Rightarrow> (string \<times> string list) list \<Rightarrow> (string \<times> model) list \<Rightarrow> string \<Rightarrow> traversal
      \<Rightarrow> (error + traversal) option"
  and visitEach ::
    "nat \<Rightarrow> (string \<times> string list) list \<Rightarrow> (string \<times> model) list \<Rightarrow> string list \<Rightarrow> traversal
      \<Rightarrow> (error + traversal) option"
where
  "visit 0 dependencies modelMap table st = None"
| "visit (Suc depth) dependencies modelMap table (visited, srt) =
     (case visited table of
        Some Done \<Rightarrow> Some (Inr (visited, srt))
      | Some Temp \<Rightarrow> Some (Inl CyclicDependency)
      | None \<Rightarrow>
          (case map_of dependencies table of
             None \<Rightarrow> Some (Inl TypeError)
           | Some deps \<Rightarrow>
               (case visitEach depth dependencies modelMap deps (visited(table \<mapsto> Temp), srt) of
                  None \<Rightarrow> None
                | Some (Inl e) \<Rightarrow> Some (Inl e)
                | Some (Inr (visited', srt')) \<Rightarrow>
                    Some (Inr (visited'(table \<mapsto> Done), srt' @ [table])))))"
| "visitEach depth dependencies modelMap [] st = Some (Inr st)"
| "visitEach depth dependencies modelMap (dep # deps) st =
     (if map_of modelMap dep \<noteq> None
      then (case visit depth dependencies modelMap dep st of
              None \<Rightarrow> None
            | Some (Inl e) \<Rightarrow> Some (Inl e)
            | Some (Inr st') \<Rightarrow> visitEach depth dependencies modelMap deps st')
      else visitEach depth dependencies modelMap deps st)"

text \<open>The loop over \<^verbatim>\<open>Object.keys(dependencies)\<close>, visiting the tables not yet marked.\<close>

fun visitAll ::
  "nat \<Rightarrow> (string \<times> string list) list \<Rightarrow> (string \<times> model) list \<Rightarrow> string list \<Rightarrow> traversal
    \<Rightarrow> (error + traversal) option" where
  "visitAll depth dependencies modelMap [] st = Some (Inr st)"
| "visitAll depth dependencies modelMap (table # tables) (visited, srt) =
     (if visited table = None
      then (case visit depth dependencies modelMap table (visited, srt) of
              None \<Rightarrow> None
            | Some (Inl e) \<Rightarrow> Some (Inl e)
            | Some (Inr st') \<Rightarrow> visitAll depth dependencies modelMap tables st')
      else visitAll depth dependencies modelMap tables (visited, srt))"

text \<open>
  The creation order of the registered models: \<^verbatim>\<open>sorted\<close> after the loop, or the
  error thrown. A depth of one more than the number of tables is never exceeded
  (\<open>creationOrder_returns\<close> below).
\<close>

definition creationOrder :: "model list \<Rightarrow> (error + string list) option" where
  "creationOrder pendingModels =
     (let modelMap = buildModelMap pendingModels [];
          dependencies = buildDependencies pendingModels []
      in case visitAll (Suc (length dependencies)) dependencies modelMap
                (map fst dependencies) (Map.empty, []) of
           None \<Rightarrow> None
         | Some (Inl e) \<Rightarrow> Some (Inl e)
         | Some (Inr (visited, srt)) \<Rightarrow> Some (Inr srt))"

subsection \<open>The dependency order is topological\<close>


lemma keys_obj_insert: "fst ` set (obj_insert k v obj) = insert k (fst ` set obj)"
  by (induction k v obj rule: obj_insert.induct) (simp_all add: insert_commute)

lemma map_fst_update [simp]:
  "map fst (map (\<lambda>(k', v'). (k', if k' = k then v else v')) obj) = map fst obj"
  by (induction obj) auto

lemma keys_obj_put: "fst ` set (obj_put k v obj) = insert k (fst ` set obj)"
proof (cases "k \<in> fst ` set obj")
  case True
  have "fst ` set (map (\<lambda>(k', v'). (k', if k' = k then v else v')) obj) = fst ` set obj"
    using map_fst_update [of k v obj] by (metis list.set_map)
  with True show ?thesis by (auto simp: obj_put_def)
next
  case False
  then show ?thesis by (simp add: obj_put_def keys_obj_insert)
qed

lemma distinct_obj_insert:
  "k \<notin> fst ` set obj \<Longrightarrow> distinct (map fst obj) \<Longrightarrow> distinct (map fst (obj_insert k v obj))"
proof (induction obj)
  case Nil
  then show ?case by simp
next
  case (Cons a obj)
  then have "fst a \<notin> fst ` set (obj_insert k v obj)"
    by (auto simp: keys_obj_insert)
  with Cons show ?case by (cases a) auto
qed

lemma distinct_obj_put:
  "distinct (map fst obj) \<Longrightarrow> distinct (map fst (obj_put k v obj))"
  using map_fst_update [of k v obj]
  by (simp add: obj_put_def distinct_obj_insert del: map_fst_update map_map)




lemma keys_buildModelMap:
  "fst ` set (buildModelMap ms mm) = m_name ` set ms \<union> fst ` set mm"
  by (induction ms arbitrary: mm) (auto simp: keys_obj_put)

lemma keys_buildDependencies:
  "fst ` set (buildDependencies ms d) = m_name ` set ms \<union> fst ` set d"
  by (induction ms arbitrary: d) (auto simp: keys_obj_put)

lemma distinct_buildDependencies:
  "distinct (map fst d) \<Longrightarrow> distinct (map fst (buildDependencies ms d))"
  by (induction ms arbitrary: d) (auto simp: distinct_obj_put)






lemma visit_dom_mono:
  "visit n deps mm t st = Some (Inr st') \<Longrightarrow> dom (fst st) \<subseteq> dom (fst st')"
  "visitEach n deps mm ds st = Some (Inr st') \<Longrightarrow> dom (fst st) \<subseteq> dom (fst st')"
proof (induction n deps mm t st and n deps mm ds st arbitrary: st' and st' rule: visit_visitEach.induct)
  case (1 dependencies modelMap table st)
  then show ?case by simp
next
  case (2 depth dependencies modelMap table visited srt)
  show ?case
  proof (cases "visited table")
    case None
    with "2.prems" obtain deps v1 s1 where
      d: "map_of dependencies table = Some deps"
      and e: "visitEach depth dependencies modelMap deps (visited(table \<mapsto> Temp), srt) = Some (Inr (v1, s1))"
      and st': "st' = (v1(table \<mapsto> Done), s1 @ [table])"
      by (auto split: option.splits sum.splits)
    from "2.IH" [OF None d e] have "dom (visited(table \<mapsto> Temp)) \<subseteq> dom v1" by (simp only: fst_conv)
    with st' show ?thesis by auto
  next
    case (Some m)
    with "2.prems" show ?thesis by (cases m) auto
  qed
next
  case (3 depth dependencies modelMap st)
  then show ?case by simp
next
  case (4 depth dependencies modelMap dep deps st)
  show ?case
  proof (cases "map_of modelMap dep \<noteq> None")
    case True
    with "4.prems" obtain st1 where
      v: "visit depth dependencies modelMap dep st = Some (Inr st1)"
      and r: "visitEach depth dependencies modelMap deps st1 = Some (Inr st')"
      by (auto split: option.splits sum.splits)
    from "4.IH"(1) [OF True v] "4.IH"(2) [OF True v _ r] show ?thesis by auto
  next
    case False
    with "4.prems" "4.IH"(3) show ?thesis by auto
  qed
qed


lemma card_unvisited_mono:
  "dom v \<subseteq> dom v' \<Longrightarrow> card (fst ` set deps - dom v') \<le> card (fst ` set deps - dom v)"
  by (intro card_mono) auto

lemma card_unvisited_mark:
  assumes "t \<in> fst ` set deps" and "v t = None"
  shows "card (fst ` set deps - dom (v(t \<mapsto> m))) < card (fst ` set deps - dom v)"
proof -
  have "t \<in> fst ` set deps - dom v" using assms by auto
  moreover have "fst ` set deps - dom (v(t \<mapsto> m)) = (fst ` set deps - dom v) - {t}" by auto
  ultimately show ?thesis
    by (metis List.finite_set card_Diff1_less finite_Diff finite_imageI)
qed

lemma visit_returns:
  "card (fst ` set deps - dom (fst st)) < n \<Longrightarrow> fst ` set mm \<subseteq> fst ` set deps
     \<Longrightarrow> visit n deps mm t st \<noteq> None"
  "card (fst ` set deps - dom (fst st)) < n \<Longrightarrow> fst ` set mm \<subseteq> fst ` set deps
     \<Longrightarrow> visitEach n deps mm ds st \<noteq> None"
proof (induction n deps mm t st and n deps mm ds st rule: visit_visitEach.induct)
  case (1 dependencies modelMap table st)
  then show ?case by simp
next
  case (2 depth dependencies modelMap table visited srt)
  show ?case
  proof (cases "visited table")
    case None
    note unvisited = this
    show ?thesis
    proof (cases "map_of dependencies table")
      case None
      with unvisited show ?thesis by simp
    next
      case (Some deps)
      then have "table \<in> fst ` set dependencies"
        by (auto dest!: map_of_SomeD intro: rev_image_eqI)
      from card_unvisited_mark [of table dependencies visited Temp, OF this unvisited] "2.prems"(1)
      have "card (fst ` set dependencies - dom (fst (visited(table \<mapsto> Temp), srt))) < depth"
        by simp
      from "2.IH" [OF unvisited Some this "2.prems"(2)] unvisited Some
      show ?thesis by (auto split: option.splits sum.splits)
    qed
  next
    case (Some m)
    then show ?thesis by (cases m) auto
  qed
next
  case (3 depth dependencies modelMap st)
  then show ?case by simp
next
  case (4 depth dependencies modelMap dep deps st)
  show ?case
  proof (cases "map_of modelMap dep \<noteq> None")
    case True
    from "4.IH"(1) [OF True "4.prems"] obtain r
      where r: "visit depth dependencies modelMap dep st = Some r" by auto
    show ?thesis
    proof (cases r)
      case (Inl e)
      with True r show ?thesis by simp
    next
      case (Inr st1)
      with r have v: "visit depth dependencies modelMap dep st = Some (Inr st1)" by simp
      from visit_dom_mono(1) [OF v] "4.prems"(1)
      have "card (fst ` set dependencies - dom (fst st1)) < depth"
        using card_unvisited_mono [of "fst st" "fst st1" dependencies] by simp
      from "4.IH"(2) [OF True v _ this "4.prems"(2)] True v show ?thesis by simp
    qed
  next
    case False
    with "4.IH"(3) "4.prems" show ?thesis by simp
  qed
qed

lemma visitAll_returns:
  "card (fst ` set deps - dom (fst st)) < n \<Longrightarrow> fst ` set mm \<subseteq> fst ` set deps
     \<Longrightarrow> visitAll n deps mm ts st \<noteq> None"
proof (induction ts arbitrary: st)
  case Nil
  then show ?case by simp
next
  case (Cons t ts)
  obtain visited srt where st: "st = (visited, srt)" by (cases st)
  show ?case
  proof (cases "visited t = None")
    case True
    from visit_returns(1) [OF Cons.prems] obtain r
      where r: "visit n deps mm t st = Some r" by auto
    show ?thesis
    proof (cases r)
      case (Inl e)
      with True r st show ?thesis by simp
    next
      case (Inr st1)
      with r have v: "visit n deps mm t st = Some (Inr st1)" by simp
      from visit_dom_mono(1) [OF v] Cons.prems(1)
      have "card (fst ` set deps - dom (fst st1)) < n"
        using card_unvisited_mono [of "fst st" "fst st1" deps] by simp
      from Cons.IH [OF this Cons.prems(2)] True v st show ?thesis by simp
    qed
  next
    case False
    with Cons.IH [OF Cons.prems] st show ?thesis by auto
  qed
qed

lemma card_keys_le: "card (fst ` set deps) \<le> length deps"
  by (metis card_image_le card_length le_trans List.finite_set)

lemma creationOrder_returns: "\<exists>r. creationOrder pendingModels = Some r"
proof -
  let ?mm = "buildModelMap pendingModels []"
  let ?deps = "buildDependencies pendingModels []"
  have "card (fst ` set ?deps - dom (fst (Map.empty :: string \<rightharpoonup> mark, [] :: string list)))
          < Suc (length ?deps)"
    using card_keys_le [of ?deps] by simp
  moreover have "fst ` set ?mm \<subseteq> fst ` set ?deps"
    by (simp add: keys_buildModelMap keys_buildDependencies)
  ultimately have "visitAll (Suc (length ?deps)) ?deps ?mm (map fst ?deps) (Map.empty, []) \<noteq> None"
    by (rule visitAll_returns)
  then show ?thesis
    by (auto simp: creationOrder_def Let_def split: option.splits sum.splits)
qed























subsection \<open>The database, the file system and the operator\<close>

text \<open>
  What \<^verbatim>\<open>syncAllTables\<close> passes to \<^verbatim>\<open>conn.promise().query\<close>. \<open>CreateTable\<close> carries the
  value of \<^verbatim>\<open>generateCreateTableStatement\<close>, which is \<^verbatim>\<open>undefined\<close> (\<open>None\<close>) for a reserved
  table name; \<open>Replay\<close> carries the content of a backup file.
\<close>

datatype statement =
    ShowTables
  | SelectAll string
  | DropTable string
  | CreateTable "string option"
  | Replay string
  | ShowColumns string
  | ShowIndex string string
  | ModifyColumn string string
  | ChangeColumn string string string string
  | AddColumn string string string
  | DropColumn string string

definition backtick :: "string \<Rightarrow> string" where
  "backtick n = [CHR 0x60] @ n @ [CHR 0x60]"

fun sqlText :: "statement \<Rightarrow> string option" where
  "sqlText ShowTables = Some ''SHOW TABLES''"
| "sqlText (SelectAll t) = Some (''SELECT * FROM '' @ backtick t)"
| "sqlText (DropTable t) = Some (''DROP TABLE IF EXISTS '' @ backtick t)"
| "sqlText (CreateTable text) = text"
| "sqlText (Replay sqlContent) = Some sqlContent"
| "sqlText (ShowColumns t) = Some (''SHOW COLUMNS FROM '' @ backtick t)"
| "sqlText (ShowIndex t fieldName) =
     Some (''SHOW INDEX FROM '' @ backtick t @ '' WHERE Column_name = ?'')"
| "sqlText (ModifyColumn t newColDef) =
     Some (''ALTER TABLE '' @ backtick t @ '' MODIFY COLUMN '' @ newColDef)"
| "sqlText (ChangeColumn t oldName fieldName colDef) =
     Some (''ALTER TABLE '' @ backtick t @ '' CHANGE COLUMN '' @ backtick oldName @ '' ''
           @ backtick fieldName @ '' '' @ colDef)"
| "sqlText (AddColumn t fieldName colDef) =
     Some (''ALTER TABLE '' @ backtick t @ '' ADD COLUMN '' @ backtick fieldName @ '' '' @ colDef)"
| "sqlText (DropColumn t col) =
     Some (''ALTER TABLE '' @ backtick t @ '' DROP COLUMN '' @ backtick col)"

text \<open>Rows of \<^verbatim>\<open>SHOW COLUMNS\<close> and \<^verbatim>\<open>SHOW INDEX\<close>, and a data row (column, value or null).\<close>

record live_column =
  c_Field :: string
  c_Type :: string
  c_Null :: string
  c_Default :: "string option"

record index_row =
  i_Non_unique :: int
  i_Key_name :: string

type_synonym row = "(string \<times> string option) list"

text \<open>
  The lines written with \<^verbatim>\<open>logs\<close> and \<^verbatim>\<open>error\<close>, by the names they interpolate, and the
  two questions asked through \<^verbatim>\<open>readline\<close>.
\<close>

datatype message =
    BackupWritten string string
  | BackupEmpty string string
  | BackupFailed string
  | OrphanDropping string
  | OrphanDropped string
  | TableReady string
  | CreateFailed string
  | InvalidTableName
  | BackupRestored string
  | RestoreFailed string
  | BackupDeleted string
  | BackupIgnored string
  | OldNameWarning string string
  | ColumnRenamed string string string
  | ColumnAdded string string
  | ColumnDropped string string

datatype prompt = AskRestore string string | AskDelete string

datatype event = Query statement | Info message | Err message | Ask prompt

text \<open>
  The collaborators of a pass. The database is any deterministic responder: each
  reply may depend on the statements issued so far, and \<open>None\<close> or \<open>False\<close> is a query
  whose promise rejects. \<open>clock\<close> is \<^verbatim>\<open>Date.now()\<close>, \<open>writable\<close> tells whether
  \<^verbatim>\<open>fs.writeFileSync\<close> succeeds on a path, \<open>operator\<close> is the line typed at a question and
  \<open>escape\<close> is \<^verbatim>\<open>conn.escape\<close>.
\<close>

record env =
  showTables :: "statement list \<Rightarrow> string list option"
  selectAll :: "statement list \<Rightarrow> string \<Rightarrow> row list option"
  showColumns :: "statement list \<Rightarrow> string \<Rightarrow> live_column list option"
  showIndex :: "statement list \<Rightarrow> string \<Rightarrow> string \<Rightarrow> index_row list option"
  execute :: "statement list \<Rightarrow> statement \<Rightarrow> bool"
  clock :: "event list \<Rightarrow> nat"
  writable :: "string \<Rightarrow> bool"
  operator :: "prompt \<Rightarrow> string"
  escape :: "string \<Rightarrow> string"

text \<open>
  The state a pass reads and changes: the static \<^verbatim>\<open>Model.pendingModels\<close>, the files of
  the working directory (path and content) and everything the pass has done so far.
\<close>

record world =
  pendingModels :: "model list"
  files :: "(string \<times> string) list"
  events :: "event list"

type_synonym outcome = "error option \<times> world"

fun statements :: "event list \<Rightarrow> statement list" where
  "statements [] = []"
| "statements (Query s # es) = s # statements es"
| "statements (e # es) = statements es"

definition issued :: "world \<Rightarrow> statement list" where
  "issued w = statements (events w)"

definition emit :: "event \<Rightarrow> world \<Rightarrow> world" where
  "emit e w = w\<lparr>events := events w @ [e]\<rparr>"

subsection \<open>Orphan tables: backup and drop\<close>

definition backupPath :: "string \<Rightarrow> nat \<Rightarrow> string" where
  "backupPath dbTable now = ''./backup_'' @ dbTable @ ''_'' @ decimal now @ ''.sql''"

text \<open>\<^verbatim>\<open>xs.join(',\n')\<close>.\<close>

fun join_lines :: "string list \<Rightarrow> string" where
  "join_lines [] = []"
| "join_lines [x] = x"
| "join_lines (x # y # ys) = x @ '','' @ [CHR 0x0A] @ join_lines (y # ys)"

text \<open>
  The backup of a table with rows: one \<^verbatim>\<open>INSERT\<close> statement, the columns taken from the
  first row. The code builds it only when there is a row.
\<close>

definition insertSQL :: "(string \<Rightarrow> string) \<Rightarrow> string \<Rightarrow> row list \<Rightarrow> string" where
  "insertSQL esc dbTable rows =
     (case rows of
        [] \<Rightarrow> []
      | first # _ \<Rightarrow>
          ''INSERT INTO '' @ backtick dbTable @ '' (''
          @ join_comma (map (\<lambda>(col, _). backtick col) first)
          @ '') VALUES''
          @ join_lines
              (map (\<lambda>r. ''('' @ join_comma (map (\<lambda>(_, val). case val of None \<Rightarrow> ''NULL''
                                                          | Some v \<Rightarrow> esc v) r) @ '')'') rows)
          @ '';'' @ [CHR 0x0A])"

definition writeFileSync :: "string \<Rightarrow> string \<Rightarrow> (string \<times> string) list \<Rightarrow> (string \<times> string) list" where
  "writeFileSync path content fs =
     (if path \<in> fst ` set fs
      then map (\<lambda>(p, c). (p, if p = path then content else c)) fs
      else fs @ [(path, content)])"

text \<open>
  The \<^verbatim>\<open>try\<close> block of the orphan loop (lines 143 to 163): nothing it throws leaves
  it; a rejected \<^verbatim>\<open>SELECT\<close> and a failed write are logged with \<^verbatim>\<open>error\<close>.
\<close>

definition backupOrphan :: "env \<Rightarrow> string \<Rightarrow> world \<Rightarrow> world" where
  "backupOrphan env dbTable w =
     (let path = backupPath dbTable (clock env (events w));
          w1 = emit (Query (SelectAll dbTable)) w
      in case selectAll env (issued w) dbTable of
           None \<Rightarrow> emit (Err (BackupFailed dbTable)) w1
         | Some rows \<Rightarrow>
             if writable env path
             then (if rows \<noteq> []
                   then emit (Info (BackupWritten dbTable path))
                          (w1\<lparr>files := writeFileSync path (insertSQL (escape env) dbTable rows) (files w1)\<rparr>)
                   else emit (Info (BackupEmpty dbTable path))
                          (w1\<lparr>files := writeFileSync path [] (files w1)\<rparr>))
             else emit (Err (BackupFailed dbTable)) w1)"

text \<open>The body of the orphan loop for a table without a model (lines 143 to 166).\<close>

definition dropOrphan :: "env \<Rightarrow> string \<Rightarrow> world \<Rightarrow> outcome" where
  "dropOrphan env dbTable w =
     (let w1 = backupOrphan env dbTable w;
          w2 = emit (Info (OrphanDropping dbTable)) w1;
          w3 = emit (Query (DropTable dbTable)) w2
      in if execute env (issued w2) (DropTable dbTable)
         then (None, emit (Info (OrphanDropped dbTable)) w3)
         else (Some DriverError, w3))"

fun orphanPhase :: "env \<Rightarrow> (string \<times> model) list \<Rightarrow> string list \<Rightarrow> world \<Rightarrow> outcome" where
  "orphanPhase env modelMap [] w = (None, w)"
| "orphanPhase env modelMap (dbTable # dbTables) w =
     (if map_of modelMap dbTable = None
      then (case dropOrphan env dbTable w of
              (Some e, w') \<Rightarrow> (Some e, w')
            | (None, w') \<Rightarrow> orphanPhase env modelMap dbTables w')
      else orphanPhase env modelMap dbTables w)"

subsection \<open>Reserved keywords and the create statement\<close>

definition reservedKeywords :: "string list" where
  "reservedKeywords =
     [''ADD'', ''ALL'', ''ALTER'', ''AND'', ''AS'', ''ASC'', ''BETWEEN'', ''BY'', ''CASE'', ''CHECK'',
      ''COLUMN'', ''CONSTRAINT'', ''CREATE'', ''CURRENT_DATE'', ''CURRENT_TIME'',
      ''CURRENT_TIMESTAMP'', ''DEFAULT'', ''DELETE'', ''DESC'', ''DISTINCT'', ''DROP'', ''ELSE'',
      ''END'', ''ESCAPE'', ''EXCEPT'', ''EXISTS'', ''FOR'', ''FOREIGN'', ''FROM'', ''FULL'', ''GROUP'',
      ''HAVING'', ''IN'', ''INNER'', ''INSERT'', ''INTERSECT'', ''INTO'', ''IS'', ''JOIN'', ''LEFT'',
      ''LIKE'', ''LIMIT'', ''NOT'', ''NULL'', ''ON'', ''OR'', ''ORDER'', ''OUTER'', ''PRIMARY'',
      ''REFERENCES'', ''RIGHT'', ''SELECT'', ''SET'', ''SOME'', ''TABLE'', ''THEN'', ''UNION'',
      ''UNIQUE'', ''UPDATE'', ''VALUES'', ''WHEN'', ''WHERE'']"

text \<open>\<^verbatim>\<open>toUpperCase\<close> and \<^verbatim>\<open>toLowerCase\<close> on the letters of ASCII.\<close>

definition upperChar :: "char \<Rightarrow> char" where
  "upperChar c =
     (if 97 \<le> (of_char c :: nat) \<and> (of_char c :: nat) \<le> 122 then char_of (of_char c - 32 :: nat) else c)"

definition toUpperCase :: "string \<Rightarrow> string" where
  "toUpperCase s = map upperChar s"

definition lowerChar :: "char \<Rightarrow> char" where
  "lowerChar c =
     (if 65 \<le> (of_char c :: nat) \<and> (of_char c :: nat) \<le> 90 then char_of (of_char c + 32 :: nat) else c)"

definition toLowerCase :: "string \<Rightarrow> string" where
  "toLowerCase s = map lowerChar s"

definition ifReservedKeywords :: "string \<Rightarrow> bool" where
  "ifReservedKeywords tableName = (toUpperCase tableName \<in> set reservedKeywords)"

text \<open>
  One column of \<^verbatim>\<open>generateCreateTableStatement\<close>, for a descriptor object: no type and
  no enum values is an error; a type goes to \<^verbatim>\<open>getColumnDefinition\<close>; enum values
  without a type give a bare \<^verbatim>\<open>ENUM\<close> column.
\<close>

definition createColumn :: "string \<times> descriptor \<Rightarrow> error + string" where
  "createColumn entry =
     (case entry of (fieldName, field) \<Rightarrow>
        if f_type field = [] \<and> f_enum field = [] then Inl (NoTypeDefined fieldName)
        else if f_type field \<noteq> [] then getColumnDefinition fieldName field
        else Inr (fieldName @ '' ENUM('' @ enumValues (f_enum field) @ '')''))"

text \<open>\<^verbatim>\<open>Object.keys(schema).map(...)\<close>: the columns in order, or the first error thrown.\<close>

fun createColumns :: "(string \<times> descriptor) list \<Rightarrow> error + string list" where
  "createColumns [] = Inr []"
| "createColumns (entry # entries) =
     (case createColumn entry of
        Inl e \<Rightarrow> Inl e
      | Inr column \<Rightarrow>
          (case createColumns entries of
             Inl e \<Rightarrow> Inl e
           | Inr columns \<Rightarrow> Inr (column # columns)))"

text \<open>
  \<^verbatim>\<open>generateCreateTableStatement\<close> (lines 338 to 366). The columns are compiled first.
  For a reserved table name the method writes the line \<open>InvalidTableName\<close> with
  \<^verbatim>\<open>error\<close> and returns \<^verbatim>\<open>undefined\<close>: the result is \<open>Inr None\<close>, and the caller below
  records the line. The list \<^verbatim>\<open>foreignKey\<close> of the method is never filled.
\<close>

definition generateCreateTableStatement ::
  "string \<Rightarrow> (string \<times> descriptor) list \<Rightarrow> error + string option" where
  "generateCreateTableStatement name schema =
     (case createColumns schema of
        Inl e \<Rightarrow> Inl e
      | Inr columns \<Rightarrow>
          if ifReservedKeywords name then Inr None
          else Inr (Some (''CREATE TABLE IF NOT EXISTS '' @ name @ '' ('' @ join_comma columns
                          @ '') ENGINE=InnoDB'')))"

text \<open>
  Step 1 of the loop over the sorted tables (lines 175 to 181): the \<^verbatim>\<open>try\<close> block calls
  \<^verbatim>\<open>generateCreateTableStatement\<close> and the driver; whatever is thrown is logged and
  thrown again.
\<close>

definition ensureTable :: "env \<Rightarrow> model \<Rightarrow> world \<Rightarrow> outcome" where
  "ensureTable env model w =
     (case generateCreateTableStatement (m_name model) (m_schemaDict model) of
        Inl e \<Rightarrow> (Some e, emit (Err (CreateFailed (m_name model))) w)
      | Inr text \<Rightarrow>
          (let w0 = (if text = None then emit (Err InvalidTableName) w else w);
               w1 = emit (Query (CreateTable text)) w0
           in if execute env (issued w0) (CreateTable text)
              then (None, emit (Info (TableReady (m_name model))) w1)
              else (Some DriverError, emit (Err (CreateFailed (m_name model))) w1)))"

subsection \<open>Offering the restore of a backup\<close>

text \<open>
  \<^verbatim>\<open>glob.sync('./backup_' + name + '_*.sql')\<close> over the files of the working directory:
  the star matches any text without a slash. Table names are taken to hold no
  character that is special in a glob pattern.
\<close>

definition globBackups :: "string \<Rightarrow> string list \<Rightarrow> string list" where
  "globBackups name paths =
     filter (\<lambda>f. prefix (''./backup_'' @ name @ ''_'') f
                \<and> suffix ''.sql'' (drop (length (''./backup_'' @ name @ ''_'')) f)
                \<and> CHR ''/'' \<notin> set (drop (length (''./backup_'' @ name @ ''_'')) f)) paths"

text \<open>
  \<^verbatim>\<open>backupFiles.sort().reverse()[0]\<close>: the greatest path in the order of \<^verbatim>\<open>sort\<close>, which
  compares strings character by character.
\<close>

definition latestBackup :: "string \<Rightarrow> string list \<Rightarrow> string option" where
  "latestBackup name paths =
     (let backupFiles = filter (\<lambda>f. \<not> suffix ''.ignored'' f) (globBackups name paths)
      in if backupFiles = [] then None else Some (hd (rev (sort backupFiles))))"

definition isYes :: "string \<Rightarrow> bool" where
  "isYes answer = (toLowerCase (trim answer) = ''y'')"

definition unlinkSync :: "string \<Rightarrow> (string \<times> string) list \<Rightarrow> (string \<times> string) list" where
  "unlinkSync path fs = filter (\<lambda>(p, c). p \<noteq> path) fs"

definition renameSync :: "string \<Rightarrow> string \<Rightarrow> (string \<times> string) list \<Rightarrow> (string \<times> string) list" where
  "renameSync old new fs =
     (if old = new then fs
      else map (\<lambda>(p, c). if p = old then (new, c) else (p, c)) (filter (\<lambda>(p, c). p \<noteq> new) fs))"

text \<open>
  The restore of the latest backup, when the operator accepts it (lines 204 to 212):
  reading the file and replaying it are in a \<^verbatim>\<open>try\<close> block whose \<^verbatim>\<open>catch\<close> logs.
\<close>

definition restoreBackup :: "env \<Rightarrow> string \<Rightarrow> string \<Rightarrow> world \<Rightarrow> world" where
  "restoreBackup env name path w =
     (case map_of (files w) path of
        None \<Rightarrow> emit (Err (RestoreFailed name)) w
      | Some sqlContent \<Rightarrow>
          (let w1 = emit (Query (Replay sqlContent)) w
           in if execute env (issued w) (Replay sqlContent)
              then emit (Info (BackupRestored name)) w1
              else emit (Err (RestoreFailed name)) w1))"

text \<open>
  The second question (lines 215 to 231), asked whatever the first answer and whatever
  the restore did: the file is deleted on \<^verbatim>\<open>y\<close> and renamed with \<^verbatim>\<open>.ignored\<close> otherwise.
\<close>

definition disposeBackup :: "env \<Rightarrow> string \<Rightarrow> string \<Rightarrow> world \<Rightarrow> world" where
  "disposeBackup env name path w =
     (let w1 = emit (Ask (AskDelete path)) w
      in if isYes (operator env (AskDelete path))
         then emit (Info (BackupDeleted path)) (w1\<lparr>files := unlinkSync path (files w1)\<rparr>)
         else emit (Info (BackupIgnored name))
                (w1\<lparr>files := renameSync path (path @ ''.ignored'') (files w1)\<rparr>))"

definition offerRestore :: "env \<Rightarrow> string \<Rightarrow> world \<Rightarrow> world" where
  "offerRestore env name w =
     (case latestBackup name (map fst (files w)) of
        None \<Rightarrow> w
      | Some path \<Rightarrow>
          (let w1 = emit (Ask (AskRestore name path)) w;
               w2 = (if isYes (operator env (AskRestore name path))
                     then restoreBackup env name path w1 else w1)
           in disposeBackup env name path w2))"

subsection \<open>Column synchronisation of one table\<close>

text \<open>
  The comparison of a declared field with its live column (lines 249 to 274). The
  defaults are compared with \<^verbatim>\<open>!=\<close> after \<^verbatim>\<open>?? null\<close>; both sides are strings or null here.
\<close>

definition needModify :: "descriptor \<Rightarrow> live_column \<Rightarrow> index_row list \<Rightarrow> bool" where
  "needModify field currentCol indexes =
     (let expectedType = map_option toUpperCase (sqlTypeMap (getFieldType field));
          dbType = takeWhile (\<lambda>c. c \<noteq> CHR ''('') (toUpperCase (c_Type currentCol));
          shouldBeNotNull = (f_required field \<or> f_primary_key field);
          isUniqueInDB = list_ex (\<lambda>idx. i_Non_unique idx = 0 \<and> i_Key_name idx \<noteq> ''PRIMARY'') indexes;
          isPrimaryInDB = list_ex (\<lambda>idx. i_Key_name idx = ''PRIMARY'') indexes
      in expectedType \<noteq> Some dbType
         \<or> (shouldBeNotNull \<and> c_Null currentCol = ''YES'')
         \<or> (\<not> shouldBeNotNull \<and> c_Null currentCol = ''NO'')
         \<or> (case f_default field of Val v \<Rightarrow> Some v | _ \<Rightarrow> None) \<noteq> c_Default currentCol
         \<or> f_unique field \<noteq> isUniqueInDB
         \<or> f_primary_key field \<noteq> isPrimaryInDB)"

text \<open>A statement that changes the structure: issued, then the pass stops if it is rejected.\<close>

definition alter :: "env \<Rightarrow> statement \<Rightarrow> world \<Rightarrow> outcome" where
  "alter env s w =
     (if execute env (issued w) s then (None, emit (Query s) w)
      else (Some DriverError, emit (Query s) w))"

text \<open>The first loop over the fields (lines 240 to 287), for a field with a live column.\<close>

definition modifyField ::
  "env \<Rightarrow> string \<Rightarrow> live_column list \<Rightarrow> string \<Rightarrow> descriptor \<Rightarrow> world \<Rightarrow> outcome" where
  "modifyField env name columns fieldName field w =
     (let w1 = emit (Query (ShowIndex name fieldName)) w
      in case showIndex env (issued w) name fieldName of
           None \<Rightarrow> (Some DriverError, w1)
         | Some indexes \<Rightarrow>
             (case find (\<lambda>col. c_Field col = fieldName) columns of
                None \<Rightarrow> (Some TypeError, w1)
              | Some currentCol \<Rightarrow>
                  if needModify field currentCol indexes
                  then (case getColumnDefinition fieldName field of
                          Inl e \<Rightarrow> (Some e, w1)
                        | Inr newColDef \<Rightarrow> alter env (ModifyColumn name newColDef) w1)
                  else (None, w1)))"

fun modifyLoop ::
  "env \<Rightarrow> string \<Rightarrow> live_column list \<Rightarrow> string list \<Rightarrow> (string \<times> descriptor) list \<Rightarrow> world
    \<Rightarrow> outcome" where
  "modifyLoop env name columns existingCols [] w = (None, w)"
| "modifyLoop env name columns existingCols ((fieldName, field) # entries) w =
     (case (if fieldName \<in> set existingCols
            then modifyField env name columns fieldName field w else (None, w)) of
        (Some e, w') \<Rightarrow> (Some e, w')
      | (None, w') \<Rightarrow>
          modifyLoop env name columns existingCols entries
            (if f_oldName field \<noteq> [] then emit (Info (OldNameWarning fieldName name)) w' else w'))"

text \<open>
  Step 1, renaming (lines 290 to 302). \<^verbatim>\<open>existingCols\<close> is updated after each rename and
  is part of the result.
\<close>

fun renameLoop ::
  "env \<Rightarrow> string \<Rightarrow> (string \<times> descriptor) list \<Rightarrow> string list \<Rightarrow> world
    \<Rightarrow> error option \<times> string list \<times> world" where
  "renameLoop env name [] existingCols w = (None, existingCols, w)"
| "renameLoop env name ((fieldName, field) # entries) existingCols w =
     (if f_oldName field \<noteq> [] \<and> f_oldName field \<in> set existingCols \<and> fieldName \<notin> set existingCols
      then (case getColumnDefinition fieldName field of
              Inl e \<Rightarrow> (Some e, existingCols, w)
            | Inr colDef \<Rightarrow>
                (case alter env (ChangeColumn name (f_oldName field) fieldName colDef) w of
                   (Some e, w') \<Rightarrow> (Some e, existingCols, w')
                 | (None, w') \<Rightarrow>
                     renameLoop env name entries
                       (map (\<lambda>col. if col = f_oldName field then fieldName else col) existingCols)
                       (emit (Info (ColumnRenamed (f_oldName field) fieldName name)) w')))
      else renameLoop env name entries existingCols w)"

text \<open>Step 2, adding the missing columns (lines 305 to 315).\<close>

fun addLoop ::
  "env \<Rightarrow> string \<Rightarrow> (string \<times> descriptor) list \<Rightarrow> string list \<Rightarrow> world
    \<Rightarrow> error option \<times> string list \<times> world" where
  "addLoop env name [] existingCols w = (None, existingCols, w)"
| "addLoop env name ((fieldName, field) # entries) existingCols w =
     (if fieldName \<notin> set existingCols
      then (case getColumnDefinition fieldName field of
              Inl e \<Rightarrow> (Some e, existingCols, w)
            | Inr colDef \<Rightarrow>
                (case alter env (AddColumn name fieldName colDef) w of
                   (Some e, w') \<Rightarrow> (Some e, existingCols, w')
                 | (None, w') \<Rightarrow>
                     addLoop env name entries (existingCols @ [fieldName])
                       (emit (Info (ColumnAdded fieldName name)) w')))
      else addLoop env name entries existingCols w)"

text \<open>Step 3, dropping the columns without a field (lines 319 to 325).\<close>

fun dropLoop :: "env \<Rightarrow> string \<Rightarrow> string list \<Rightarrow> string list \<Rightarrow> world \<Rightarrow> outcome" where
  "dropLoop env name keys [] w = (None, w)"
| "dropLoop env name keys (col # cols) w =
     (if col \<notin> set keys
      then (case alter env (DropColumn name col) w of
              (Some e, w') \<Rightarrow> (Some e, w')
            | (None, w') \<Rightarrow> dropLoop env name keys cols (emit (Info (ColumnDropped col name)) w'))
      else dropLoop env name keys cols w)"

text \<open>
  Part 2 of the loop over the sorted tables (lines 234 to 326): the live columns are
  read once, then the four loops run in the order of the source.
\<close>

definition syncColumns :: "env \<Rightarrow> bool \<Rightarrow> model \<Rightarrow> world \<Rightarrow> outcome" where
  "syncColumns env dangerousSync model w =
     (let name = m_name model; schemaDict = m_schemaDict model;
          w1 = emit (Query (ShowColumns name)) w
      in case showColumns env (issued w) name of
           None \<Rightarrow> (Some DriverError, w1)
         | Some columns \<Rightarrow>
             (case modifyLoop env name columns (map c_Field columns) schemaDict w1 of
                (Some e, w2) \<Rightarrow> (Some e, w2)
              | (None, w2) \<Rightarrow>
                  (case renameLoop env name schemaDict (map c_Field columns) w2 of
                     (Some e, _, w3) \<Rightarrow> (Some e, w3)
                   | (None, existingCols, w3) \<Rightarrow>
                       (case addLoop env name schemaDict existingCols w3 of
                          (Some e, _, w4) \<Rightarrow> (Some e, w4)
                        | (None, existingCols', w4) \<Rightarrow>
                            if dangerousSync
                            then dropLoop env name (map fst schemaDict) existingCols' w4
                            else (None, w4)))))"

subsection \<open>The pass\<close>

text \<open>The body of the loop over the sorted tables (lines 171 to 327).\<close>

definition syncTable :: "env \<Rightarrow> bool \<Rightarrow> model \<Rightarrow> world \<Rightarrow> outcome" where
  "syncTable env dangerousSync model w =
     (case ensureTable env model w of
        (Some e, w1) \<Rightarrow> (Some e, w1)
      | (None, w1) \<Rightarrow> syncColumns env dangerousSync model (offerRestore env (m_name model) w1))"

fun syncTables ::
  "env \<Rightarrow> bool \<Rightarrow> (string \<times> model) list \<Rightarrow> string list \<Rightarrow> world \<Rightarrow> outcome" where
  "syncTables env dangerousSync modelMap [] w = (None, w)"
| "syncTables env dangerousSync modelMap (table # tables) w =
     (case map_of modelMap table of
        None \<Rightarrow> (Some TypeError, w)
      | Some model \<Rightarrow>
          (case syncTable env dangerousSync model w of
             (Some e, w') \<Rightarrow> (Some e, w')
           | (None, w') \<Rightarrow> syncTables env dangerousSync modelMap tables w'))"

text \<open>
  \<^verbatim>\<open>Model.syncAllTables({ dangerousSync })\<close> (lines 103 to 330). The result is the error
  thrown, if any, and the world the pass leaves; \<^verbatim>\<open>Model.pendingModels\<close> is emptied by
  the last statement only. \<open>None\<close> stands for a traversal deeper than its bound, which
  does not happen (\<open>syncAllTables_returns\<close> below).
\<close>

definition syncAllTables :: "env \<Rightarrow> bool \<Rightarrow> world \<Rightarrow> outcome option" where
  "syncAllTables env dangerousSync w =
     (let modelMap = buildModelMap (pendingModels w) [];
          w1 = emit (Query ShowTables) w
      in case showTables env (issued w) of
           None \<Rightarrow> Some (Some DriverError, w1)
         | Some dbTables \<Rightarrow>
             (case creationOrder (pendingModels w) of
                None \<Rightarrow> None
              | Some (Inl e) \<Rightarrow> Some (Some e, w1)
              | Some (Inr srt) \<Rightarrow>
                  (case orphanPhase env modelMap dbTables w1 of
                     (Some e, w2) \<Rightarrow> Some (Some e, w2)
                   | (None, w2) \<Rightarrow>
                       (case syncTables env dangerousSync modelMap srt w2 of
                          (Some e, w3) \<Rightarrow> Some (Some e, w3)
                        | (None, w3) \<Rightarrow> Some (None, w3\<lparr>pendingModels := []\<rparr>)))))"

subsection \<open>What the column synchronisation issues\<close>

text \<open>
  \<open>added w w'\<close>: what has been done between two worlds of a pass. \<open>columnPhase\<close> numbers
  the loops of the column synchronisation in the order of the source; \<open>tableOf\<close> is the
  table a statement names.
\<close>

definition added :: "world \<Rightarrow> world \<Rightarrow> event list" where
  "added w w' = drop (length (events w)) (events w')"

fun columnPhase :: "statement \<Rightarrow> nat" where
  "columnPhase (ShowIndex _ _) = 1"
| "columnPhase (ModifyColumn _ _) = 1"
| "columnPhase (ChangeColumn _ _ _ _) = 2"
| "columnPhase (AddColumn _ _ _) = 3"
| "columnPhase (DropColumn _ _) = 4"
| "columnPhase _ = 0"

fun tableOf :: "statement \<Rightarrow> string option" where
  "tableOf (SelectAll t) = Some t"
| "tableOf (DropTable t) = Some t"
| "tableOf (ShowColumns t) = Some t"
| "tableOf (ShowIndex t _) = Some t"
| "tableOf (ModifyColumn t _) = Some t"
| "tableOf (ChangeColumn t _ _ _) = Some t"
| "tableOf (AddColumn t _ _) = Some t"
| "tableOf (DropColumn t _) = Some t"
| "tableOf _ = None"

lemma statements_append [simp]: "statements (xs @ ys) = statements xs @ statements ys"
  by (induction xs rule: statements.induct) auto

lemma events_emit [simp]: "events (emit e w) = events w @ [e]"
  by (simp add: emit_def)

lemma files_emit [simp]: "files (emit e w) = files w"
  by (simp add: emit_def)

lemma pendingModels_emit [simp]: "pendingModels (emit e w) = pendingModels w"
  by (simp add: emit_def)

lemma added_append: "events w' = events w @ xs \<Longrightarrow> added w w' = xs"
  by (simp add: added_def)

lemma alter_events:
  "alter env s w = (r, w') \<Longrightarrow> events w' = events w @ [Query s]"
  by (auto simp: alter_def split: if_splits)

lemma alter_files: "alter env s w = (r, w') \<Longrightarrow> files w' = files w \<and> pendingModels w' = pendingModels w"
  by (auto simp: alter_def split: if_splits)

text \<open>The statements of the first loop: index reads and column modifications.\<close>

lemma modifyField_events:
  assumes "modifyField env name columns fieldName field w = (r, w')"
  shows "\<exists>xs. events w' = events w @ xs
           \<and> (\<forall>s \<in> set (statements xs). columnPhase s = 1 \<and> tableOf s = Some name)"
proof -
  let ?w1 = "emit (Query (ShowIndex name fieldName)) w"
  consider (same) "w' = ?w1"
    | (alt) newColDef where "alter env (ModifyColumn name newColDef) ?w1 = (r, w')"
    using assms
    by (auto simp: modifyField_def Let_def split: option.splits if_splits sum.splits)
  then show ?thesis
  proof cases
    case same
    then show ?thesis by simp
  next
    case alt
    from alter_events [OF alt] show ?thesis by simp
  qed
qed

lemma modifyLoop_events:
  "modifyLoop env name columns existingCols entries w = (r, w') \<Longrightarrow>
   \<exists>xs. events w' = events w @ xs
        \<and> (\<forall>s \<in> set (statements xs). columnPhase s = 1 \<and> tableOf s = Some name)"
proof (induction entries arbitrary: w)
  case Nil
  then show ?case by simp
next
  case (Cons entry entries)
  obtain fieldName field where entry: "entry = (fieldName, field)" by (cases entry)
  let ?step = "if fieldName \<in> set existingCols
               then modifyField env name columns fieldName field w else (None, w)"
  obtain r1 w1 where step: "?step = (r1, w1)" by (cases ?step)
  have ev1: "\<exists>xs. events w1 = events w @ xs
           \<and> (\<forall>s \<in> set (statements xs). columnPhase s = 1 \<and> tableOf s = Some name)"
  proof (cases "fieldName \<in> set existingCols")
    case True
    with step show ?thesis by (auto dest: modifyField_events)
  next
    case False
    with step show ?thesis by simp
  qed
  show ?case
  proof (cases r1)
    case (Some e)
    with Cons.prems entry step have "w' = w1" by simp
    with ev1 show ?thesis by simp
  next
    case None
    let ?w2 = "if f_oldName field \<noteq> [] then emit (Info (OldNameWarning fieldName name)) w1 else w1"
    from Cons.prems entry step None
    have "modifyLoop env name columns existingCols entries ?w2 = (r, w')" by simp
    from Cons.IH [OF this] obtain ys where ys: "events w' = events ?w2 @ ys"
      "\<forall>s \<in> set (statements ys). columnPhase s = 1 \<and> tableOf s = Some name"
      by blast
    from ev1 obtain xs where xs: "events w1 = events w @ xs"
      "\<forall>s \<in> set (statements xs). columnPhase s = 1 \<and> tableOf s = Some name"
      by blast
    have "\<exists>zs. events ?w2 = events w1 @ zs \<and> statements zs = []"
      by simp
    then obtain zs where zs: "events ?w2 = events w1 @ zs" "statements zs = []" by blast
    have "events w' = events w @ (xs @ zs @ ys)"
      using xs(1) ys(1) zs(1) by simp
    moreover have "\<forall>s \<in> set (statements (xs @ zs @ ys)). columnPhase s = 1 \<and> tableOf s = Some name"
      using xs(2) ys(2) zs(2) by auto
    ultimately show ?thesis by blast
  qed
qed


text \<open>The runs of one iteration of the rename loop, and what the loop does to the column list.\<close>

lemma renameLoop_cases:
  assumes "renameLoop env name ((fieldName, field) # entries) ec w = (r, ec', w')"
  obtains
    (skip) "\<not> (f_oldName field \<noteq> [] \<and> f_oldName field \<in> set ec \<and> fieldName \<notin> set ec)"
      "renameLoop env name entries ec w = (r, ec', w')"
  | (compile) e where "f_oldName field \<noteq> []" "f_oldName field \<in> set ec" "fieldName \<notin> set ec"
      "getColumnDefinition fieldName field = Inl e" "r = Some e" "ec' = ec" "w' = w"
  | (rejected) colDef e where "f_oldName field \<noteq> []" "f_oldName field \<in> set ec" "fieldName \<notin> set ec"
      "getColumnDefinition fieldName field = Inr colDef"
      "alter env (ChangeColumn name (f_oldName field) fieldName colDef) w = (Some e, w')"
      "r = Some e" "ec' = ec"
  | (renamed) colDef w1 where "f_oldName field \<noteq> []" "f_oldName field \<in> set ec" "fieldName \<notin> set ec"
      "getColumnDefinition fieldName field = Inr colDef"
      "alter env (ChangeColumn name (f_oldName field) fieldName colDef) w = (None, w1)"
      "renameLoop env name entries
         (map (\<lambda>col. if col = f_oldName field then fieldName else col) ec)
         (emit (Info (ColumnRenamed (f_oldName field) fieldName name)) w1) = (r, ec', w')"
proof (cases "f_oldName field \<noteq> [] \<and> f_oldName field \<in> set ec \<and> fieldName \<notin> set ec")
  case False
  with assms have "renameLoop env name entries ec w = (r, ec', w')"
    by (simp del: renameLoop.simps(2) add: renameLoop.simps(2) [where existingCols = ec])
  with False show ?thesis by (rule skip)
next
  case True
  note cond = this
  show ?thesis
  proof (cases "getColumnDefinition fieldName field")
    case (Inl e)
    with assms cond have "r = Some e" "ec' = ec" "w' = w" by auto
    with cond Inl show ?thesis by (intro compile) auto
  next
    case (Inr colDef)
    obtain r1 w1 where a: "alter env (ChangeColumn name (f_oldName field) fieldName colDef) w = (r1, w1)"
      by (cases "alter env (ChangeColumn name (f_oldName field) fieldName colDef) w")
    show ?thesis
    proof (cases r1)
      case (Some e)
      with assms cond Inr a have "r = Some e" "ec' = ec" "w' = w1" by auto
      with cond Inr a Some show ?thesis by (intro rejected) auto
    next
      case None
      with assms cond Inr a
      have "renameLoop env name entries
         (map (\<lambda>col. if col = f_oldName field then fieldName else col) ec)
         (emit (Info (ColumnRenamed (f_oldName field) fieldName name)) w1) = (r, ec', w')"
        by auto
      with cond Inr a None show ?thesis by (intro renamed) auto
    qed
  qed
qed

lemma renameLoop_events:
  "renameLoop env name entries ec w = (r, ec', w') \<Longrightarrow>
   \<exists>xs. events w' = events w @ xs
        \<and> (\<forall>s \<in> set (statements xs). \<exists>old f colDef. s = ChangeColumn name old f colDef)"
proof (induction entries arbitrary: ec w)
  case Nil
  then show ?case by simp
next
  case (Cons entry entries)
  obtain fieldName field where entry: "entry = (fieldName, field)" by (cases entry)
  from Cons.prems [unfolded entry] show ?case
  proof (cases rule: renameLoop_cases)
    case skip
    from Cons.IH [OF skip(2)] show ?thesis .
  next
    case (compile e)
    then show ?thesis by simp
  next
    case (rejected colDef e)
    from alter_events [OF rejected(5)] show ?thesis by simp
  next
    case (renamed colDef w1)
    from Cons.IH [OF renamed(6)] obtain ys where
      ys: "events w' = events (emit (Info (ColumnRenamed (f_oldName field) fieldName name)) w1) @ ys"
      "\<forall>s \<in> set (statements ys). \<exists>old f colDef. s = ChangeColumn name old f colDef"
      by blast
    from alter_events [OF renamed(5)] ys(1)
    have "events w' = events w @ ([Query (ChangeColumn name (f_oldName field) fieldName colDef),
             Info (ColumnRenamed (f_oldName field) fieldName name)] @ ys)"
      by simp
    moreover have "\<forall>s \<in> set (statements ([Query (ChangeColumn name (f_oldName field) fieldName colDef),
             Info (ColumnRenamed (f_oldName field) fieldName name)] @ ys)).
           \<exists>old f colDef. s = ChangeColumn name old f colDef"
      using ys(2) by auto
    ultimately show ?thesis by blast
  qed
qed


lemma added_trans:
  "events w1 = events w @ xs \<Longrightarrow> events w' = events w1 @ ys \<Longrightarrow> added w w' = xs @ ys"
  by (simp add: added_def)

lemma renameLoop_added:
  assumes "renameLoop env name entries ec w = (r, ec', w')"
  shows "events w' = events w @ added w w'"
    and "\<forall>s \<in> set (statements (added w w')). \<exists>old f colDef. s = ChangeColumn name old f colDef"
proof -
  from renameLoop_events [OF assms] obtain xs where xs: "events w' = events w @ xs"
    "\<forall>s \<in> set (statements xs). \<exists>old f colDef. s = ChangeColumn name old f colDef"
    by blast
  from xs(1) have "added w w' = xs" by (rule added_append)
  with xs show "events w' = events w @ added w w'"
    and "\<forall>s \<in> set (statements (added w w')). \<exists>old f colDef. s = ChangeColumn name old f colDef"
    by simp_all
qed

lemma renamed_added:
  assumes "alter env (ChangeColumn name old fieldName colDef) w = (None, w1)"
    and "renameLoop env name entries ec1 (emit (Info (ColumnRenamed old fieldName name)) w1) = (r, ec', w')"
  shows "added w w' = [Query (ChangeColumn name old fieldName colDef), Info (ColumnRenamed old fieldName name)]
           @ added (emit (Info (ColumnRenamed old fieldName name)) w1) w'"
proof -
  from alter_events [OF assms(1)]
  have "events (emit (Info (ColumnRenamed old fieldName name)) w1) =
          events w @ [Query (ChangeColumn name old fieldName colDef), Info (ColumnRenamed old fieldName name)]"
    by simp
  from added_trans [OF this renameLoop_added(1) [OF assms(2)]] show ?thesis .
qed

lemma count_list_replace:
  "col \<noteq> a \<Longrightarrow> col \<noteq> b \<Longrightarrow> count_list (map (\<lambda>c. if c = a then b else c) xs) col = count_list xs col"
  by (induction xs) auto

lemma renameLoop_keeps_count:
  "renameLoop env name entries ec w = (r, ec', w') \<Longrightarrow> col \<notin> fst ` set entries
    \<Longrightarrow> (\<forall>f colDef. ChangeColumn name col f colDef \<notin> set (statements (added w w')))
    \<Longrightarrow> count_list ec' col = count_list ec col"
proof (induction entries arbitrary: ec w)
  case Nil
  then show ?case by simp
next
  case (Cons entry entries)
  obtain fieldName field where entry: "entry = (fieldName, field)" by (cases entry)
  from Cons.prems(2) entry have notkey: "col \<noteq> fieldName" "col \<notin> fst ` set entries" by auto
  from Cons.prems(1) [unfolded entry] show ?case
  proof (cases rule: renameLoop_cases)
    case skip
    from Cons.IH [OF skip(2) notkey(2) Cons.prems(3)] show ?thesis .
  next
    case (compile e)
    then show ?thesis by simp
  next
    case (rejected colDef e)
    then show ?thesis by simp
  next
    case (renamed colDef w1)
    note add = renamed_added [OF renamed(5,6)]
    from Cons.prems(3) add have "col \<noteq> f_oldName field" by auto
    moreover from Cons.prems(3) add
    have "\<forall>f colDef. ChangeColumn name col f colDef
            \<notin> set (statements (added (emit (Info (ColumnRenamed (f_oldName field) fieldName name)) w1) w'))"
      by auto
    from Cons.IH [OF renamed(6) notkey(2) this]
    have "count_list ec' col =
            count_list (map (\<lambda>c. if c = f_oldName field then fieldName else c) ec) col" .
    ultimately show ?thesis using notkey(1) by (simp add: count_list_replace)
  qed
qed


text \<open>The runs of one iteration of the add loop.\<close>

lemma addLoop_cases:
  assumes "addLoop env name ((fieldName, field) # entries) ec w = (r, ec', w')"
  obtains
    (skip) "fieldName \<in> set ec" "addLoop env name entries ec w = (r, ec', w')"
  | (compile) e where "fieldName \<notin> set ec"
      "getColumnDefinition fieldName field = Inl e" "r = Some e" "ec' = ec" "w' = w"
  | (rejected) colDef e where "fieldName \<notin> set ec"
      "getColumnDefinition fieldName field = Inr colDef"
      "alter env (AddColumn name fieldName colDef) w = (Some e, w')" "r = Some e" "ec' = ec"
  | (added) colDef w1 where "fieldName \<notin> set ec"
      "getColumnDefinition fieldName field = Inr colDef"
      "alter env (AddColumn name fieldName colDef) w = (None, w1)"
      "addLoop env name entries (ec @ [fieldName]) (emit (Info (ColumnAdded fieldName name)) w1)
         = (r, ec', w')"
proof (cases "fieldName \<in> set ec")
  case True
  with assms have "addLoop env name entries ec w = (r, ec', w')" by simp
  with True show ?thesis by (rule skip)
next
  case False
  note cond = this
  show ?thesis
  proof (cases "getColumnDefinition fieldName field")
    case (Inl e)
    with assms cond have "r = Some e" "ec' = ec" "w' = w" by auto
    with cond Inl show ?thesis by (intro compile) auto
  next
    case (Inr colDef)
    obtain r1 w1 where a: "alter env (AddColumn name fieldName colDef) w = (r1, w1)"
      by (cases "alter env (AddColumn name fieldName colDef) w")
    show ?thesis
    proof (cases r1)
      case (Some e)
      with assms cond Inr a have "r = Some e" "ec' = ec" "w' = w1" by auto
      with cond Inr a Some show ?thesis by (intro rejected) auto
    next
      case None
      with assms cond Inr a
      have "addLoop env name entries (ec @ [fieldName]) (emit (Info (ColumnAdded fieldName name)) w1)
              = (r, ec', w')"
        by auto
      with cond Inr a None show ?thesis by (intro added) auto
    qed
  qed
qed

lemma addLoop_events:
  "addLoop env name entries ec w = (r, ec', w') \<Longrightarrow>
   \<exists>xs. events w' = events w @ xs
        \<and> (\<forall>s \<in> set (statements xs). \<exists>f colDef. s = AddColumn name f colDef \<and> f \<notin> set ec)"
proof (induction entries arbitrary: ec w)
  case Nil
  then show ?case by simp
next
  case (Cons entry entries)
  obtain fieldName field where entry: "entry = (fieldName, field)" by (cases entry)
  from Cons.prems [unfolded entry] show ?case
  proof (cases rule: addLoop_cases)
    case skip
    from Cons.IH [OF skip(2)] show ?thesis .
  next
    case (compile e)
    then show ?thesis by simp
  next
    case (rejected colDef e)
    from alter_events [OF rejected(3)] rejected(1) show ?thesis by simp
  next
    case (added colDef w1)
    from Cons.IH [OF added(4)] obtain ys where
      ys: "events w' = events (emit (Info (ColumnAdded fieldName name)) w1) @ ys"
      "\<forall>s \<in> set (statements ys). \<exists>f colDef. s = AddColumn name f colDef \<and> f \<notin> set (ec @ [fieldName])"
      by blast
    from alter_events [OF added(3)] ys(1)
    have "events w' = events w @ ([Query (AddColumn name fieldName colDef),
             Info (ColumnAdded fieldName name)] @ ys)"
      by simp
    moreover have "\<forall>s \<in> set (statements ([Query (AddColumn name fieldName colDef),
             Info (ColumnAdded fieldName name)] @ ys)).
           \<exists>f colDef. s = AddColumn name f colDef \<and> f \<notin> set ec"
      using ys(2) added(1) by auto
    ultimately show ?thesis by blast
  qed
qed

lemma addLoop_added:
  assumes "addLoop env name entries ec w = (r, ec', w')"
  shows "events w' = events w @ added w w'"
    and "\<forall>s \<in> set (statements (added w w')). \<exists>f colDef. s = AddColumn name f colDef \<and> f \<notin> set ec"
proof -
  from addLoop_events [OF assms] obtain xs where xs: "events w' = events w @ xs"
    "\<forall>s \<in> set (statements xs). \<exists>f colDef. s = AddColumn name f colDef \<and> f \<notin> set ec"
    by blast
  from xs(1) have "added w w' = xs" by (rule added_append)
  with xs show "events w' = events w @ added w w'"
    and "\<forall>s \<in> set (statements (added w w')). \<exists>f colDef. s = AddColumn name f colDef \<and> f \<notin> set ec"
    by simp_all
qed

lemma addLoop_keeps_count:
  "addLoop env name entries ec w = (r, ec', w') \<Longrightarrow> col \<notin> fst ` set entries
    \<Longrightarrow> count_list ec' col = count_list ec col"
proof (induction entries arbitrary: ec w)
  case Nil
  then show ?case by simp
next
  case (Cons entry entries)
  obtain fieldName field where entry: "entry = (fieldName, field)" by (cases entry)
  from Cons.prems(2) entry have notkey: "col \<noteq> fieldName" "col \<notin> fst ` set entries" by auto
  from Cons.prems(1) [unfolded entry] show ?case
  proof (cases rule: addLoop_cases)
    case skip
    from Cons.IH [OF skip(2) notkey(2)] show ?thesis .
  next
    case (added colDef w1)
    from Cons.IH [OF added(4) notkey(2)] notkey(1) show ?thesis by simp
  qed simp_all
qed


text \<open>The drop loop issues one statement for each occurrence of a column without a field.\<close>

lemma dropLoop_events:
  "dropLoop env name keys cols w = (r, w') \<Longrightarrow>
   \<exists>xs. events w' = events w @ xs
        \<and> (\<forall>s \<in> set (statements xs). \<exists>c. s = DropColumn name c \<and> c \<in> set cols \<and> c \<notin> set keys)
        \<and> (r = None \<longrightarrow> (\<forall>col. col \<notin> set keys \<longrightarrow>
              count_list (statements xs) (DropColumn name col) = count_list cols col))"
proof (induction cols arbitrary: w)
  case Nil
  then show ?case by simp
next
  case (Cons col cols)
  show ?case
  proof (cases "col \<in> set keys")
    case True
    with Cons.prems have "dropLoop env name keys cols w = (r, w')" by simp
    from Cons.IH [OF this] obtain xs where
      xs: "events w' = events w @ xs"
      "\<forall>s \<in> set (statements xs). \<exists>c. s = DropColumn name c \<and> c \<in> set cols \<and> c \<notin> set keys"
      "r = None \<longrightarrow> (\<forall>col. col \<notin> set keys \<longrightarrow>
              count_list (statements xs) (DropColumn name col) = count_list cols col)"
      by blast
    from xs(2) have "\<forall>s \<in> set (statements xs). \<exists>c. s = DropColumn name c \<and> c \<in> set (col # cols) \<and> c \<notin> set keys"
      by fastforce
    moreover from xs(3) True have "r = None \<longrightarrow> (\<forall>c. c \<notin> set keys \<longrightarrow>
              count_list (statements xs) (DropColumn name c) = count_list (col # cols) c)"
      by auto
    ultimately show ?thesis using xs(1) by blast
  next
    case False
    obtain r1 w1 where a: "alter env (DropColumn name col) w = (r1, w1)"
      by (cases "alter env (DropColumn name col) w")
    note ev = alter_events [OF a]
    show ?thesis
    proof (cases r1)
      case (Some e)
      with Cons.prems False a have "r = Some e" "w' = w1" by auto
      with ev False show ?thesis by simp
    next
      case None
      with Cons.prems False a
      have "dropLoop env name keys cols (emit (Info (ColumnDropped col name)) w1) = (r, w')"
        by auto
      from Cons.IH [OF this] obtain ys where
        ys: "events w' = events (emit (Info (ColumnDropped col name)) w1) @ ys"
        "\<forall>s \<in> set (statements ys). \<exists>c. s = DropColumn name c \<and> c \<in> set cols \<and> c \<notin> set keys"
        "r = None \<longrightarrow> (\<forall>col. col \<notin> set keys \<longrightarrow>
              count_list (statements ys) (DropColumn name col) = count_list cols col)"
        by blast
      let ?xs = "[Query (DropColumn name col), Info (ColumnDropped col name)] @ ys"
      from ev ys(1) have "events w' = events w @ ?xs" by simp
      moreover have "\<forall>s \<in> set (statements ?xs). \<exists>c. s = DropColumn name c \<and> c \<in> set (col # cols) \<and> c \<notin> set keys"
        using ys(2) False by auto
      moreover have "r = None \<longrightarrow> (\<forall>c. c \<notin> set keys \<longrightarrow>
              count_list (statements ?xs) (DropColumn name c) = count_list (col # cols) c)"
        using ys(3) by auto
      ultimately show ?thesis by blast
    qed
  qed
qed


text \<open>The four loops together.\<close>

lemma modifyLoop_added:
  assumes "modifyLoop env name columns existingCols entries w = (r, w')"
  shows "events w' = events w @ added w w'"
    and "\<forall>s \<in> set (statements (added w w')). columnPhase s = 1 \<and> tableOf s = Some name"
proof -
  from modifyLoop_events [OF assms] obtain xs where xs: "events w' = events w @ xs"
    "\<forall>s \<in> set (statements xs). columnPhase s = 1 \<and> tableOf s = Some name"
    by blast
  from xs(1) have "added w w' = xs" by (rule added_append)
  with xs show "events w' = events w @ added w w'"
    and "\<forall>s \<in> set (statements (added w w')). columnPhase s = 1 \<and> tableOf s = Some name"
    by simp_all
qed

lemma dropLoop_added:
  assumes "dropLoop env name keys cols w = (r, w')"
  shows "events w' = events w @ added w w'"
    and "\<forall>s \<in> set (statements (added w w')). \<exists>c. s = DropColumn name c \<and> c \<in> set cols \<and> c \<notin> set keys"
    and "r = None \<Longrightarrow> col \<notin> set keys \<Longrightarrow>
           count_list (statements (added w w')) (DropColumn name col) = count_list cols col"
proof -
  from dropLoop_events [OF assms] obtain xs where xs: "events w' = events w @ xs"
    "\<forall>s \<in> set (statements xs). \<exists>c. s = DropColumn name c \<and> c \<in> set cols \<and> c \<notin> set keys"
    "r = None \<longrightarrow> (\<forall>col. col \<notin> set keys \<longrightarrow>
              count_list (statements xs) (DropColumn name col) = count_list cols col)"
    by blast
  from xs(1) have a: "added w w' = xs" by (rule added_append)
  with xs show "events w' = events w @ added w w'"
    and "\<forall>s \<in> set (statements (added w w')). \<exists>c. s = DropColumn name c \<and> c \<in> set cols \<and> c \<notin> set keys"
    by simp_all
  show "count_list (statements (added w w')) (DropColumn name col) = count_list cols col"
    if "r = None" "col \<notin> set keys"
    using that xs(3) a by simp
qed

lemma added_same [simp]: "added w w = []"
  by (simp add: added_def)

lemma sorted_same_phase: "\<forall>s \<in> set ss. columnPhase s = k \<Longrightarrow> sorted (map columnPhase ss)"
  by (induction ss) auto

text \<open>
  \<open>phased n k w w'\<close>: between \<open>w\<close> and \<open>w'\<close> the statements were issued in the order of their
  phases, none beyond phase \<open>k\<close>, all of them on table \<open>n\<close>.
\<close>

definition phased :: "string \<Rightarrow> nat \<Rightarrow> world \<Rightarrow> world \<Rightarrow> bool" where
  "phased n k w w' =
     (events w' = events w @ added w w'
      \<and> sorted (map columnPhase (statements (added w w')))
      \<and> (\<forall>s \<in> set (statements (added w w')). columnPhase s \<le> k \<and> tableOf s = Some n))"

lemma phased_step:
  assumes "phased n k w w0" and "events w1 = events w0 @ added w0 w1"
    and "\<forall>s \<in> set (statements (added w0 w1)). columnPhase s = k' \<and> tableOf s = Some n"
    and "k \<le> k'"
  shows "phased n k' w w1"
proof -
  from assms(1) have w0: "events w0 = events w @ added w w0"
    and srt: "sorted (map columnPhase (statements (added w w0)))"
    and le: "\<forall>s \<in> set (statements (added w w0)). columnPhase s \<le> k \<and> tableOf s = Some n"
    by (simp_all add: phased_def)
  from added_trans [OF w0 assms(2)] have a: "added w w1 = added w w0 @ added w0 w1" .
  have "events w1 = events w @ added w w1"
    using w0 assms(2) a by simp
  moreover have "sorted (map columnPhase (statements (added w w1)))"
    unfolding a using srt le assms(3,4)
    by (auto simp: sorted_append intro!: sorted_same_phase)
  ultimately show ?thesis
    unfolding phased_def a using le assms(3,4) by auto
qed


lemma phased_mono: "phased n k w w' \<Longrightarrow> k \<le> k' \<Longrightarrow> phased n k' w w'"
  by (auto simp: phased_def)

lemma syncColumns_phased:
  assumes "syncColumns env dangerousSync model w = (r, w')"
  shows "phased (m_name model) (if dangerousSync then 4 else 3) w w'"
proof -
  let ?name = "m_name model" and ?sd = "m_schemaDict model"
  let ?w1 = "emit (Query (ShowColumns ?name)) w"
  have "added w ?w1 = [Query (ShowColumns ?name)]"
    by (simp add: added_def)
  then have p1: "phased ?name 0 w ?w1"
    by (simp add: phased_def)
  show ?thesis
  proof (cases "showColumns env (issued w) ?name")
    case None
    with assms have "w' = ?w1" by (simp add: syncColumns_def Let_def)
    with p1 show ?thesis by (auto intro: phased_mono)
  next
    case (Some columns)
    note cols = this
    obtain ra wa where ma: "modifyLoop env ?name columns (map c_Field columns) ?sd ?w1 = (ra, wa)"
      by (cases "modifyLoop env ?name columns (map c_Field columns) ?sd ?w1")
    from phased_step [OF p1 modifyLoop_added [OF ma]] have pa: "phased ?name 1 w wa" by simp
    show ?thesis
    proof (cases ra)
      case (Some e)
      with assms cols ma have "w' = wa" by (simp add: syncColumns_def Let_def)
      with pa show ?thesis by (auto intro: phased_mono)
    next
      case None
      note ra = this
      obtain rb ecb wb where mb: "renameLoop env ?name ?sd (map c_Field columns) wa = (rb, ecb, wb)"
        by (cases "renameLoop env ?name ?sd (map c_Field columns) wa")
      from renameLoop_added(2) [OF mb]
      have "\<forall>s \<in> set (statements (added wa wb)). columnPhase s = 2 \<and> tableOf s = Some ?name"
        by fastforce
      from phased_step [OF pa renameLoop_added(1) [OF mb] this] have pb: "phased ?name 2 w wb" by simp
      show ?thesis
      proof (cases rb)
        case (Some e)
        with assms cols ma ra mb have "w' = wb" by (simp add: syncColumns_def Let_def)
        with pb show ?thesis by (auto intro: phased_mono)
      next
        case None
        note rb = this
        obtain rc ecc wc where mc: "addLoop env ?name ?sd ecb wb = (rc, ecc, wc)"
          by (cases "addLoop env ?name ?sd ecb wb")
        from addLoop_added(2) [OF mc]
        have "\<forall>s \<in> set (statements (added wb wc)). columnPhase s = 3 \<and> tableOf s = Some ?name"
          by fastforce
        from phased_step [OF pb addLoop_added(1) [OF mc] this] have pc: "phased ?name 3 w wc" by simp
        show ?thesis
        proof (cases "rc = None \<and> dangerousSync")
          case False
          with assms cols ma ra mb rb mc have "w' = wc"
            by (cases rc) (auto simp: syncColumns_def Let_def)
          with pc show ?thesis by (auto intro: phased_mono)
        next
          case True
          with assms cols ma ra mb rb mc
          have md: "dropLoop env ?name (map fst ?sd) ecc wc = (r, w')"
            by (simp add: syncColumns_def Let_def)
          from dropLoop_added(2) [OF md]
          have "\<forall>s \<in> set (statements (added wc w')). columnPhase s = 4 \<and> tableOf s = Some ?name"
            by fastforce
          from phased_step [OF pc dropLoop_added(1) [OF md] this] True show ?thesis by simp
        qed
      qed
    qed
  qed
qed

lemma syncColumns_completed:
  assumes "syncColumns env dangerousSync model w = (None, w')"
  shows "\<exists>columns wa ecb wb ecc wc.
    showColumns env (issued w) (m_name model) = Some columns
    \<and> modifyLoop env (m_name model) columns (map c_Field columns) (m_schemaDict model)
       (emit (Query (ShowColumns (m_name model))) w) = (None, wa)
    \<and> renameLoop env (m_name model) (m_schemaDict model) (map c_Field columns) wa = (None, ecb, wb)
    \<and> addLoop env (m_name model) (m_schemaDict model) ecb wb = (None, ecc, wc)
    \<and> (dangerousSync \<longrightarrow> dropLoop env (m_name model) (map fst (m_schemaDict model)) ecc wc = (None, w'))
    \<and> (\<not> dangerousSync \<longrightarrow> w' = wc)"
  using assms
  by (auto simp: syncColumns_def Let_def split: option.splits prod.splits if_splits)

lemma syncColumns_added:
  assumes "modifyLoop env name columns ec0 sd (emit (Query (ShowColumns name)) w) = (ra, wa)"
    and "renameLoop env name sd ec1 wa = (rb, ecb, wb)"
    and "addLoop env name sd ecb wb = (rc, ecc, wc)"
    and "events w' = events wc @ added wc w'"
  shows "statements (added w w') =
          ShowColumns name # statements (added (emit (Query (ShowColumns name)) w) wa)
            @ statements (added wa wb) @ statements (added wb wc) @ statements (added wc w')"
proof -
  let ?w1 = "emit (Query (ShowColumns name)) w"
  have "events w' = events w @ ([Query (ShowColumns name)] @ added ?w1 wa @ added wa wb
          @ added wb wc @ added wc w')"
    using modifyLoop_added(1) [OF assms(1)] renameLoop_added(1) [OF assms(2)]
      addLoop_added(1) [OF assms(3)] assms(4)
    by simp
  from added_append [OF this] show ?thesis by simp
qed


text \<open>
  The statements that the column synchronisation of one table issues, and the four
  kinds of structural statement. \<open>all_before P Q xs\<close>: no element with \<open>P\<close> comes after an
  element with \<open>Q\<close>, that is, every \<open>P\<close> precedes every \<open>Q\<close>.
\<close>

definition columnStatements :: "env \<Rightarrow> bool \<Rightarrow> model \<Rightarrow> world \<Rightarrow> statement list" where
  "columnStatements env dangerousSync model w =
     statements (added w (snd (syncColumns env dangerousSync model w)))"

fun isModify :: "statement \<Rightarrow> bool" where
  "isModify (ModifyColumn _ _) = True"
| "isModify _ = False"

fun isRename :: "statement \<Rightarrow> bool" where
  "isRename (ChangeColumn _ _ _ _) = True"
| "isRename _ = False"

fun isAdd :: "statement \<Rightarrow> bool" where
  "isAdd (AddColumn _ _ _) = True"
| "isAdd _ = False"

fun isDrop :: "statement \<Rightarrow> bool" where
  "isDrop (DropColumn _ _) = True"
| "isDrop _ = False"

fun all_before :: "('a \<Rightarrow> bool) \<Rightarrow> ('a \<Rightarrow> bool) \<Rightarrow> 'a list \<Rightarrow> bool" where
  "all_before P Q [] = True"
| "all_before P Q (x # xs) = ((Q x \<longrightarrow> \<not> list_ex P xs) \<and> all_before P Q xs)"

lemma sorted_all_before:
  "sorted (map ph xs) \<Longrightarrow> (\<forall>x. P x \<longrightarrow> ph x < k) \<Longrightarrow> (\<forall>x. Q x \<longrightarrow> k \<le> ph x)
    \<Longrightarrow> all_before P Q xs"
proof (induction xs)
  case Nil
  then show ?case by simp
next
  case (Cons x xs)
  have "\<not> list_ex P xs" if "Q x"
  proof -
    from that Cons.prems(3) have "k \<le> ph x" by simp
    with Cons.prems(1) have "\<forall>y \<in> set xs. k \<le> ph y" by auto
    with Cons.prems(2) show ?thesis unfolding list_ex_iff by (meson leD)
  qed
  with Cons show ?case by simp
qed

lemma phase_kinds:
  "isModify s \<Longrightarrow> columnPhase s = 1" "isRename s \<Longrightarrow> columnPhase s = 2"
  "isAdd s \<Longrightarrow> columnPhase s = 3" "isDrop s \<Longrightarrow> columnPhase s = 4"
  by (cases s; simp)+

lemma columnStatements_phased:
  "sorted (map columnPhase (columnStatements env dangerousSync model w))"
  "\<forall>s \<in> set (columnStatements env dangerousSync model w).
     columnPhase s \<le> (if dangerousSync then 4 else 3) \<and> tableOf s = Some (m_name model)"
proof -
  obtain r w' where run: "syncColumns env dangerousSync model w = (r, w')"
    by (cases "syncColumns env dangerousSync model w")
  from syncColumns_phased [OF run] run
  show "sorted (map columnPhase (columnStatements env dangerousSync model w))"
    and "\<forall>s \<in> set (columnStatements env dangerousSync model w).
     columnPhase s \<le> (if dangerousSync then 4 else 3) \<and> tableOf s = Some (m_name model)"
    by (simp_all add: phased_def columnStatements_def)
qed

text \<open>
  Sample collaborators. \<open>quietEnv\<close> is an empty database that accepts every
  statement, with an operator who answers \<^verbatim>\<open>n\<close>. In \<open>driftEnv\<close> every table has the
  columns \<^verbatim>\<open>title varchar(20)\<close> and \<^verbatim>\<open>legacy int\<close>; in \<open>rangEnv\<close> the single column
  \<^verbatim>\<open>rang varchar(255)\<close>.
\<close>

definition quietEnv :: env where
  "quietEnv =
     \<lparr>showTables = (\<lambda>_. Some []), selectAll = (\<lambda>_ _. Some []),
      showColumns = (\<lambda>_ _. Some []), showIndex = (\<lambda>_ _ _. Some []),
      execute = (\<lambda>_ _. True), clock = (\<lambda>_. 17), writable = (\<lambda>_. True),
      operator = (\<lambda>_. ''n''), escape = (\<lambda>v. [CHR 0x27] @ v @ [CHR 0x27])\<rparr>"

definition emptyWorld :: world where
  "emptyWorld = \<lparr>pendingModels = [], files = [], events = []\<rparr>"

definition driftColumns :: "live_column list" where
  "driftColumns =
     [\<lparr>c_Field = ''title'', c_Type = ''varchar(20)'', c_Null = ''YES'', c_Default = None\<rparr>,
      \<lparr>c_Field = ''legacy'', c_Type = ''int'', c_Null = ''YES'', c_Default = None\<rparr>]"

definition driftEnv :: env where
  "driftEnv = quietEnv\<lparr>showColumns := (\<lambda>_ _. Some driftColumns)\<rparr>"



text \<open>
  Sample models: \<^verbatim>\<open>notes {title: Number, body: Text}\<close>,
  \<^verbatim>\<open>members {role: {type: String, oldName: "rang"}}\<close>, and \<^verbatim>\<open>members\<close> with a second
  field \<^verbatim>\<open>grade\<close> that names the same old column.
\<close>

definition notes_model :: model where
  "notes_model = \<lparr>m_name = ''notes'', m_schemaDict =
     [(''title'', no_properties\<lparr>f_type := ''Number''\<rparr>),
      (''body'', no_properties\<lparr>f_type := ''Text''\<rparr>)]\<rparr>"

definition role_field :: descriptor where
  "role_field = no_properties\<lparr>f_type := ''String'', f_oldName := ''rang''\<rparr>"

definition members_model :: model where
  "members_model = \<lparr>m_name = ''members'', m_schemaDict = [(''role'', role_field)]\<rparr>"


lemma notes_statements:
  "columnStatements driftEnv True notes_model emptyWorld =
     [ShowColumns ''notes'', ShowIndex ''notes'' ''title'',
      ModifyColumn ''notes'' ''title INT(255)'',
      AddColumn ''notes'' ''body'' ''body TEXT'',
      DropColumn ''notes'' ''legacy'']"
  by code_simp

text \<open>
  C1 (as the code has it). The column synchronisation of a table issues its
  structural statements in the order of its four loops: every column modify precedes
  every rename, every rename precedes every add, and every add precedes every drop;
  so a drop never comes before a modify, rename or add. All these statements name the
  table being synchronised.
\<close>

theorem syncColumns_statement_order:
  "all_before isModify isRename (columnStatements env dangerousSync model w)
   \<and> all_before isModify isAdd (columnStatements env dangerousSync model w)
   \<and> all_before isRename isAdd (columnStatements env dangerousSync model w)
   \<and> all_before isModify isDrop (columnStatements env dangerousSync model w)
   \<and> all_before isRename isDrop (columnStatements env dangerousSync model w)
   \<and> all_before isAdd isDrop (columnStatements env dangerousSync model w)
   \<and> list_all (\<lambda>s. tableOf s = Some (m_name model)) (columnStatements env dangerousSync model w)"
proof -
  let ?ss = "columnStatements env dangerousSync model w"
  note srt = columnStatements_phased(1) [of env dangerousSync model w]
  have "all_before isModify isRename ?ss"
    by (rule sorted_all_before [OF srt, where k = 2]) (auto dest: phase_kinds)
  moreover have "all_before isModify isAdd ?ss"
    by (rule sorted_all_before [OF srt, where k = 3]) (auto dest: phase_kinds)
  moreover have "all_before isRename isAdd ?ss"
    by (rule sorted_all_before [OF srt, where k = 3]) (auto dest: phase_kinds)
  moreover have "all_before isModify isDrop ?ss"
    by (rule sorted_all_before [OF srt, where k = 4]) (auto dest: phase_kinds)
  moreover have "all_before isRename isDrop ?ss"
    by (rule sorted_all_before [OF srt, where k = 4]) (auto dest: phase_kinds)
  moreover have "all_before isAdd isDrop ?ss"
    by (rule sorted_all_before [OF srt, where k = 4]) (auto dest: phase_kinds)
  moreover have "list_all (\<lambda>s. tableOf s = Some (m_name model)) ?ss"
    using columnStatements_phased(2) [of env dangerousSync model w] by (simp add: list_all_iff)
  ultimately show ?thesis by blast
qed


lemma count_list_distinct: "distinct xs \<Longrightarrow> x \<in> set xs \<Longrightarrow> count_list xs x = 1"
  by (induction xs) (auto simp: count_list_0_iff)

lemma count_list_none: "(\<forall>s \<in> set xs. s \<noteq> x) \<Longrightarrow> count_list xs x = 0"
  by (induction xs) auto

lemma columnStatements_completed:
  assumes "fst (syncColumns env dangerousSync model w) = None"
  shows "\<exists>columns wa ecb wb ecc wc w'.
    showColumns env (issued w) (m_name model) = Some columns
    \<and> modifyLoop env (m_name model) columns (map c_Field columns) (m_schemaDict model)
       (emit (Query (ShowColumns (m_name model))) w) = (None, wa)
    \<and> renameLoop env (m_name model) (m_schemaDict model) (map c_Field columns) wa = (None, ecb, wb)
    \<and> addLoop env (m_name model) (m_schemaDict model) ecb wb = (None, ecc, wc)
    \<and> (dangerousSync \<longrightarrow> dropLoop env (m_name model) (map fst (m_schemaDict model)) ecc wc = (None, w'))
    \<and> (\<not> dangerousSync \<longrightarrow> w' = wc)
    \<and> columnStatements env dangerousSync model w =
       ShowColumns (m_name model)
         # statements (added (emit (Query (ShowColumns (m_name model))) w) wa)
         @ statements (added wa wb) @ statements (added wb wc) @ statements (added wc w')"
proof -
  obtain w' where run: "syncColumns env dangerousSync model w = (None, w')"
    using assms by (cases "syncColumns env dangerousSync model w") auto
  from syncColumns_completed [OF run] obtain columns wa ecb wb ecc wc where parts:
    "showColumns env (issued w) (m_name model) = Some columns"
    "modifyLoop env (m_name model) columns (map c_Field columns) (m_schemaDict model)
       (emit (Query (ShowColumns (m_name model))) w) = (None, wa)"
    "renameLoop env (m_name model) (m_schemaDict model) (map c_Field columns) wa = (None, ecb, wb)"
    "addLoop env (m_name model) (m_schemaDict model) ecb wb = (None, ecc, wc)"
    "dangerousSync \<longrightarrow> dropLoop env (m_name model) (map fst (m_schemaDict model)) ecc wc = (None, w')"
    "\<not> dangerousSync \<longrightarrow> w' = wc"
    by blast
  have "events w' = events wc @ added wc w'"
  proof (cases dangerousSync)
    case True
    with parts(5) have "dropLoop env (m_name model) (map fst (m_schemaDict model)) ecc wc = (None, w')"
      by simp
    from dropLoop_added(1) [OF this] show ?thesis .
  next
    case False
    with parts(6) show ?thesis by simp
  qed
  from syncColumns_added [OF parts(2,3,4) this] run
  have "columnStatements env dangerousSync model w =
       ShowColumns (m_name model)
         # statements (added (emit (Query (ShowColumns (m_name model))) w) wa)
         @ statements (added wa wb) @ statements (added wb wc) @ statements (added wc w')"
    by (simp add: columnStatements_def)
  with parts show ?thesis by blast
qed

theorem syncColumns_statement_order_witness:
  "all_before isModify isAdd
     [ShowColumns ''notes'', ShowIndex ''notes'' ''title'',
      ModifyColumn ''notes'' ''title INT(255)'',
      AddColumn ''notes'' ''body'' ''body TEXT'',
      DropColumn ''notes'' ''legacy'']
   \<and> all_before isAdd isDrop
     [ShowColumns ''notes'', ShowIndex ''notes'' ''title'',
      ModifyColumn ''notes'' ''title INT(255)'',
      AddColumn ''notes'' ''body'' ''body TEXT'',
      DropColumn ''notes'' ''legacy'']"
  using syncColumns_statement_order [of driftEnv True notes_model emptyWorld]
  unfolding notes_statements by blast

text \<open>
  C1 as stated fails: it wants every add before every modify, but for \<^verbatim>\<open>notes\<close> the
  column \<^verbatim>\<open>title\<close> is modified first and the column \<^verbatim>\<open>body\<close> is added after it.
\<close>

theorem add_after_modify_counterexample:
  "columnStatements driftEnv True notes_model emptyWorld =
     [ShowColumns ''notes'', ShowIndex ''notes'' ''title'',
      ModifyColumn ''notes'' ''title INT(255)'',
      AddColumn ''notes'' ''body'' ''body TEXT'',
      DropColumn ''notes'' ''legacy'']
   \<and> \<not> all_before isAdd isModify (columnStatements driftEnv True notes_model emptyWorld)"
proof -
  have "\<not> all_before isAdd isModify
     [ShowColumns ''notes'', ShowIndex ''notes'' ''title'',
      ModifyColumn ''notes'' ''title INT(255)'',
      AddColumn ''notes'' ''body'' ''body TEXT'',
      DropColumn ''notes'' ''legacy'']"
    by simp
  then show ?thesis by (simp only: notes_statements simp_thms)
qed

text \<open>
  C6. Without \<open>dangerousSync\<close> the column synchronisation issues no drop at all. With
  it, in a synchronisation of the table that runs to its end, a live column (the
  database lists each column once) whose name is no declared field and that no
  rename of this run has taken as its source is dropped by exactly one statement.
\<close>

theorem orphan_column_drop:
  "(\<not> dangerousSync \<longrightarrow> \<not> list_ex isDrop (columnStatements env dangerousSync model w))
   \<and> (dangerousSync
        \<and> fst (syncColumns env dangerousSync model w) = None
        \<and> showColumns env (issued w) (m_name model) = Some columns
        \<and> distinct (map c_Field columns)
        \<and> col \<in> set (map c_Field columns)
        \<and> col \<notin> fst ` set (m_schemaDict model)
        \<and> (\<forall>fieldName colDef. ChangeColumn (m_name model) col fieldName colDef
               \<notin> set (columnStatements env dangerousSync model w))
      \<longrightarrow> count_list (columnStatements env dangerousSync model w) (DropColumn (m_name model) col) = 1)"
proof (intro conjI impI)
  assume "\<not> dangerousSync"
  with columnStatements_phased(2) [of env dangerousSync model w]
  have "\<forall>s \<in> set (columnStatements env dangerousSync model w). columnPhase s \<le> 3" by simp
  then show "\<not> list_ex isDrop (columnStatements env dangerousSync model w)"
    by (fastforce simp: list_ex_iff dest: phase_kinds(4))
next
  let ?name = "m_name model" and ?sd = "m_schemaDict model"
  assume a: "dangerousSync
        \<and> fst (syncColumns env dangerousSync model w) = None
        \<and> showColumns env (issued w) (m_name model) = Some columns
        \<and> distinct (map c_Field columns)
        \<and> col \<in> set (map c_Field columns)
        \<and> col \<notin> fst ` set (m_schemaDict model)
        \<and> (\<forall>fieldName colDef. ChangeColumn (m_name model) col fieldName colDef
               \<notin> set (columnStatements env dangerousSync model w))"
  then have ds: dangerousSync and complete: "fst (syncColumns env dangerousSync model w) = None"
    and live: "showColumns env (issued w) ?name = Some columns" "distinct (map c_Field columns)"
      "col \<in> set (map c_Field columns)"
    and nokey: "col \<notin> fst ` set ?sd"
    and norename: "\<forall>fieldName colDef. ChangeColumn ?name col fieldName colDef
               \<notin> set (columnStatements env dangerousSync model w)"
    by blast+
  from columnStatements_completed [OF complete] obtain columns' wa ecb wb ecc wc w' where parts:
    "showColumns env (issued w) ?name = Some columns'"
    "modifyLoop env ?name columns' (map c_Field columns') ?sd
       (emit (Query (ShowColumns ?name)) w) = (None, wa)"
    "renameLoop env ?name ?sd (map c_Field columns') wa = (None, ecb, wb)"
    "addLoop env ?name ?sd ecb wb = (None, ecc, wc)"
    "dangerousSync \<longrightarrow> dropLoop env ?name (map fst ?sd) ecc wc = (None, w')"
    and stmts: "columnStatements env dangerousSync model w =
       ShowColumns ?name
         # statements (added (emit (Query (ShowColumns ?name)) w) wa)
         @ statements (added wa wb) @ statements (added wb wc) @ statements (added wc w')"
    by blast
  from parts(1) live(1) have same: "columns' = columns" by simp
  from parts(5) ds have drop: "dropLoop env ?name (map fst ?sd) ecc wc = (None, w')" by simp
  from norename stmts
  have "\<forall>f colDef. ChangeColumn ?name col f colDef \<notin> set (statements (added wa wb))"
    by simp
  from renameLoop_keeps_count [OF parts(3) nokey this] live(2,3) same
  have "count_list ecb col = 1" by (simp add: count_list_distinct)
  with addLoop_keeps_count [OF parts(4) nokey] have ecc: "count_list ecc col = 1" by simp
  from nokey have "col \<notin> set (map fst ?sd)" by simp
  from dropLoop_added(3) [OF drop _ this] ecc
  have d: "count_list (statements (added wc w')) (DropColumn ?name col) = 1" by simp
  have a0: "count_list (statements (added (emit (Query (ShowColumns ?name)) w) wa)) (DropColumn ?name col) = 0"
    using modifyLoop_added(2) [OF parts(2)] by (intro count_list_none) auto
  have b0: "count_list (statements (added wa wb)) (DropColumn ?name col) = 0"
    using renameLoop_added(2) [OF parts(3)] by (intro count_list_none) auto
  have c0: "count_list (statements (added wb wc)) (DropColumn ?name col) = 0"
    using addLoop_added(2) [OF parts(4)] by (intro count_list_none) auto
  show "count_list (columnStatements env dangerousSync model w) (DropColumn ?name col) = 1"
    unfolding stmts using a0 b0 c0 d by simp
qed


theorem orphan_column_drop_witness:
  "fst (syncColumns driftEnv True notes_model emptyWorld) = None
   \<and> count_list (columnStatements driftEnv True notes_model emptyWorld)
        (DropColumn ''notes'' ''legacy'') = 1
   \<and> \<not> list_ex isDrop (columnStatements driftEnv False notes_model emptyWorld)"
proof -
  have run: "fst (syncColumns driftEnv True notes_model emptyWorld) = None"
    by code_simp
  have live: "showColumns driftEnv (issued emptyWorld) (m_name notes_model) = Some driftColumns"
    by (simp add: driftEnv_def quietEnv_def)
  have cols: "distinct (map c_Field driftColumns)" "''legacy'' \<in> set (map c_Field driftColumns)"
    by (simp_all add: driftColumns_def)
  have name: "m_name notes_model = ''notes''"
    and nokey: "''legacy'' \<notin> fst ` set (m_schemaDict notes_model)"
    by (simp_all add: notes_model_def)
  have norename: "\<forall>fieldName colDef. ChangeColumn (m_name notes_model) ''legacy'' fieldName colDef
         \<notin> set (columnStatements driftEnv True notes_model emptyWorld)"
    unfolding notes_statements by simp
  from orphan_column_drop [of True driftEnv notes_model emptyWorld driftColumns "''legacy''"]
    run live cols nokey norename name
  have "count_list (columnStatements driftEnv True notes_model emptyWorld)
          (DropColumn ''notes'' ''legacy'') = 1"
    by simp
  moreover from orphan_column_drop [of False driftEnv notes_model emptyWorld driftColumns "''legacy''"]
  have "\<not> list_ex isDrop (columnStatements driftEnv False notes_model emptyWorld)"
    by simp
  ultimately show ?thesis using run by blast
qed















subsection \<open>The backup offered for a table\<close>


definition plain_users :: model where
  "plain_users = \<lparr>m_name = ''users'', m_schemaDict = [(''id'', pk_number)]\<rparr>"

definition users_roles_model :: model where
  "users_roles_model = \<lparr>m_name = ''users_roles'', m_schemaDict = [(''id'', pk_number)]\<rparr>"

definition replayFailEnv :: env where
  "replayFailEnv = quietEnv
     \<lparr>execute := (\<lambda>_ s. case s of Replay _ \<Rightarrow> False | _ \<Rightarrow> True),
      operator := (\<lambda>p. case p of AskRestore _ _ \<Rightarrow> ''y'' | AskDelete _ \<Rightarrow> ''n'')\<rparr>"

text \<open>
  The pattern \<^verbatim>\<open>./backup_<name>_*.sql\<close> as a predicate on paths: the star stands for any
  text without a slash, underscores included.
\<close>

definition matchesBackupPattern :: "string \<Rightarrow> string \<Rightarrow> bool" where
  "matchesBackupPattern name f =
     (\<exists>mid. f = ''./backup_'' @ name @ ''_'' @ mid @ ''.sql'' \<and> CHR ''/'' \<notin> set mid)"

lemma globBackups_iff:
  "f \<in> set (globBackups name paths) \<longleftrightarrow> f \<in> set paths \<and> matchesBackupPattern name f"
proof -
  let ?p = "''./backup_'' @ name @ ''_''"
  have "(prefix ?p f \<and> suffix ''.sql'' (drop (length ?p) f) \<and> CHR ''/'' \<notin> set (drop (length ?p) f))
          \<longleftrightarrow> matchesBackupPattern name f"
  proof
    assume a: "prefix ?p f \<and> suffix ''.sql'' (drop (length ?p) f) \<and> CHR ''/'' \<notin> set (drop (length ?p) f)"
    then obtain rest where rest: "f = ?p @ rest" by (auto simp: prefix_def)
    with a obtain mid where mid: "rest = mid @ ''.sql''" by (auto simp: suffix_def)
    from a rest mid have "CHR ''/'' \<notin> set mid" by auto
    with rest mid show "matchesBackupPattern name f"
      unfolding matchesBackupPattern_def by (intro exI [of _ mid]) simp
  next
    assume "matchesBackupPattern name f"
    then obtain mid where mid: "f = ?p @ mid @ ''.sql''" "CHR ''/'' \<notin> set mid"
      unfolding matchesBackupPattern_def by auto
    then have "drop (length ?p) f = mid @ ''.sql''" by simp
    with mid show "prefix ?p f \<and> suffix ''.sql'' (drop (length ?p) f) \<and> CHR ''/'' \<notin> set (drop (length ?p) f)"
      by (auto simp: prefix_def suffix_def)
  qed
  then show ?thesis by (auto simp: globBackups_def)
qed

lemma sorted_le_last: "sorted ys \<Longrightarrow> g \<in> set ys \<Longrightarrow> g \<le> last ys"
proof (induction ys)
  case Nil
  then show ?case by simp
next
  case (Cons y ys)
  show ?case
  proof (cases "ys = []")
    case True
    with Cons.prems show ?thesis by simp
  next
    case False
    then have l: "last ys \<in> set ys" by (rule last_in_set)
    show ?thesis
    proof (cases "g = y")
      case True
      with Cons.prems(1) l False show ?thesis by auto
    next
      case g: False
      with Cons False show ?thesis by auto
    qed
  qed
qed

lemma greatest_of_sort:
  assumes "xs \<noteq> []"
  shows "hd (rev (sort xs)) \<in> set xs" and "\<forall>g \<in> set xs. g \<le> hd (rev (sort xs))"
proof -
  from assms have ne: "sort xs \<noteq> []" by (metis length_0_conv length_sort)
  then have h: "hd (rev (sort xs)) = last (sort xs)" by (simp add: hd_rev)
  from ne have "last (sort xs) \<in> set (sort xs)" by (rule last_in_set)
  with h show "hd (rev (sort xs)) \<in> set xs" by simp
  show "\<forall>g \<in> set xs. g \<le> hd (rev (sort xs))"
    unfolding h using sorted_le_last [of "sort xs"] by simp
qed

text \<open>
  C10. The lookup for table \<open>name\<close> returns a path of the directory that matches the
  pattern of \<open>name\<close>, does not end in \<^verbatim>\<open>.ignored\<close> and is greatest in the order of
  strings among such paths; it returns none only when there is no such path. For the
  tables \<^verbatim>\<open>users\<close> and \<^verbatim>\<open>users_roles\<close>, the backup written for \<^verbatim>\<open>users_roles\<close> matches
  the pattern of \<^verbatim>\<open>users\<close> and is greater than the backup of \<^verbatim>\<open>users\<close> itself, so it is
  the one selected and offered for \<^verbatim>\<open>users\<close>.
\<close>

theorem latestBackup_selects:
  "(latestBackup name paths = Some f \<longrightarrow>
      f \<in> set paths \<and> matchesBackupPattern name f \<and> \<not> suffix ''.ignored'' f
      \<and> (\<forall>g \<in> set paths. matchesBackupPattern name g \<and> \<not> suffix ''.ignored'' g \<longrightarrow> g \<le> f))
   \<and> (latestBackup name paths = None \<longrightarrow>
      (\<forall>g \<in> set paths. \<not> (matchesBackupPattern name g \<and> \<not> suffix ''.ignored'' g)))
   \<and> latestBackup ''users'' [backupPath ''users_roles'' 17, backupPath ''users'' 18]
       = Some (backupPath ''users_roles'' 17)
   \<and> Ask (AskRestore ''users'' (backupPath ''users_roles'' 17))
       \<in> set (events (offerRestore quietEnv ''users''
            (emptyWorld\<lparr>files := [(backupPath ''users_roles'' 17, ''INSERT INTO users_roles''),
                                   (backupPath ''users'' 18, [])]\<rparr>)))"
proof -
  let ?files = "filter (\<lambda>f. \<not> suffix ''.ignored'' f) (globBackups name paths)"
  have mem: "g \<in> set ?files \<longleftrightarrow> g \<in> set paths \<and> matchesBackupPattern name g \<and> \<not> suffix ''.ignored'' g"
    for g by (auto simp: globBackups_iff)
  have found: "f \<in> set paths \<and> matchesBackupPattern name f \<and> \<not> suffix ''.ignored'' f
      \<and> (\<forall>g \<in> set paths. matchesBackupPattern name g \<and> \<not> suffix ''.ignored'' g \<longrightarrow> g \<le> f)"
    if "latestBackup name paths = Some f"
  proof -
    from that have ne: "?files \<noteq> []" and f: "f = hd (rev (sort ?files))"
      by (auto simp: latestBackup_def Let_def split: if_splits)
    from greatest_of_sort [OF ne] f have "f \<in> set ?files" "\<forall>g \<in> set ?files. g \<le> f"
      by simp_all
    then show ?thesis using mem by blast
  qed
  have none: "\<forall>g \<in> set paths. \<not> (matchesBackupPattern name g \<and> \<not> suffix ''.ignored'' g)"
    if "latestBackup name paths = None"
  proof -
    from that have "?files = []"
      by (auto simp: latestBackup_def Let_def split: if_splits)
    then have "\<forall>g. g \<notin> set ?files" by simp
    then show ?thesis using mem by blast
  qed
  have "latestBackup ''users'' [backupPath ''users_roles'' 17, backupPath ''users'' 18]
       = Some (backupPath ''users_roles'' 17)"
    by code_simp
  moreover have "Ask (AskRestore ''users'' (backupPath ''users_roles'' 17))
       \<in> set (events (offerRestore quietEnv ''users''
            (emptyWorld\<lparr>files := [(backupPath ''users_roles'' 17, ''INSERT INTO users_roles''),
                                   (backupPath ''users'' 18, [])]\<rparr>)))"
    by code_simp
  ultimately show ?thesis using found none by blast
qed

theorem latestBackup_selects_witness:
  "latestBackup ''users'' [backupPath ''users_roles'' 17, backupPath ''users'' 18]
       = Some (backupPath ''users_roles'' 17)
   \<and> matchesBackupPattern ''users'' (backupPath ''users_roles'' 17)
   \<and> backupPath ''users'' 18 \<le> backupPath ''users_roles'' 17"
proof -
  have sel: "latestBackup ''users'' [backupPath ''users_roles'' 17, backupPath ''users'' 18]
       = Some (backupPath ''users_roles'' 17)"
    by code_simp
  have own: "matchesBackupPattern ''users'' (backupPath ''users'' 18)"
    unfolding matchesBackupPattern_def backupPath_def
    by (intro exI [of _ "decimal 18"]) code_simp
  have live: "\<not> suffix ''.ignored'' (backupPath ''users'' 18)"
    by code_simp
  from latestBackup_selects
    [of "''users''" "[backupPath ''users_roles'' 17, backupPath ''users'' 18]"
        "backupPath ''users_roles'' 17"]
    sel own live
  show ?thesis by simp
qed

lemma issued_emit_Ask [simp]: "issued (emit (Ask p) w) = issued w"
  by (simp add: issued_def)

lemma unlinkSync_removes: "path \<notin> fst ` set (unlinkSync path fs)"
  by (auto simp: unlinkSync_def)

lemma renameSync_removes: "new \<noteq> path \<Longrightarrow> path \<notin> fst ` set (renameSync path new fs)"
  by (auto simp: renameSync_def split: if_splits)

lemma renameSync_moves:
  "new \<noteq> path \<Longrightarrow> map_of fs path = Some content
    \<Longrightarrow> map_of (renameSync path new fs) new = Some content"
proof (induction fs)
  case Nil
  then show ?case by simp
next
  case (Cons entry fs)
  obtain p c where entry: "entry = (p, c)" by (cases entry)
  show ?case
  proof (cases "p = path")
    case True
    with Cons.prems entry have "c = content" by simp
    with True entry Cons.prems(1) show ?thesis by (simp add: renameSync_def)
  next
    case False
    with Cons.prems entry have "map_of fs path = Some content" by simp
    from Cons.IH [OF Cons.prems(1) this] False entry Cons.prems(1) show ?thesis
      by (auto simp: renameSync_def)
  qed
qed

text \<open>
  C5 (as the code has it). When the latest backup of a table is offered, the operator
  accepts and the replay is rejected, the failure is logged and the second question
  is asked all the same: the file is deleted when the operator answers \<^verbatim>\<open>y\<close> and
  renamed with the suffix \<^verbatim>\<open>.ignored\<close> otherwise, so that in both cases no file is left
  under its path. Nothing is thrown: the table's column synchronisation runs next,
  from the world this step leaves.
\<close>

theorem failed_replay_disposes_backup:
  assumes "latestBackup name (map fst (files w)) = Some path"
    and "isYes (operator env (AskRestore name path))"
    and "map_of (files w) path = Some sqlContent"
    and "\<not> execute env (issued w) (Replay sqlContent)"
  shows "added w (offerRestore env name w) =
           [Ask (AskRestore name path), Query (Replay sqlContent), Err (RestoreFailed name),
            Ask (AskDelete path),
            Info (if isYes (operator env (AskDelete path)) then BackupDeleted path
                  else BackupIgnored name)]
         \<and> path \<notin> fst ` set (files (offerRestore env name w))
         \<and> (\<not> isYes (operator env (AskDelete path)) \<longrightarrow>
               map_of (files (offerRestore env name w)) (path @ ''.ignored'') = Some sqlContent)
         \<and> (\<forall>dangerousSync model w0. ensureTable env model w0 = (None, w) \<and> m_name model = name \<longrightarrow>
               syncTable env dangerousSync model w0
                 = syncColumns env dangerousSync model (offerRestore env name w))"
proof -
  let ?w1 = "emit (Ask (AskRestore name path)) w"
  let ?w2 = "emit (Err (RestoreFailed name)) (emit (Query (Replay sqlContent)) ?w1)"
  have restore: "restoreBackup env name path ?w1 = ?w2"
    using assms(3,4) by (simp add: restoreBackup_def Let_def)
  have off: "offerRestore env name w = disposeBackup env name path ?w2"
    using assms(1,2) restore by (simp add: offerRestore_def Let_def)
  have files2: "files ?w2 = files w" by simp
  have ne: "path @ ''.ignored'' \<noteq> path" by simp
  show ?thesis
  proof (cases "isYes (operator env (AskDelete path))")
    case True
    then have "events (offerRestore env name w) = events w @
           [Ask (AskRestore name path), Query (Replay sqlContent), Err (RestoreFailed name),
            Ask (AskDelete path), Info (BackupDeleted path)]"
      and "files (offerRestore env name w) = unlinkSync path (files w)"
      unfolding off by (simp_all add: disposeBackup_def Let_def emit_def)
    with True show ?thesis
      by (auto simp: added_def unlinkSync_removes syncTable_def)
  next
    case False
    then have "events (offerRestore env name w) = events w @
           [Ask (AskRestore name path), Query (Replay sqlContent), Err (RestoreFailed name),
            Ask (AskDelete path), Info (BackupIgnored name)]"
      and "files (offerRestore env name w) = renameSync path (path @ ''.ignored'') (files w)"
      unfolding off by (simp_all add: disposeBackup_def Let_def emit_def)
    with False renameSync_removes [OF ne, of "files w"] renameSync_moves [OF ne assms(3)]
    show ?thesis
      by (auto simp: added_def syncTable_def)
  qed
qed

theorem failed_replay_disposes_backup_witness:
  "added (emptyWorld\<lparr>files := [(''./backup_users_17.sql'', ''INSERT INTO users'')]\<rparr>)
     (offerRestore replayFailEnv ''users''
        (emptyWorld\<lparr>files := [(''./backup_users_17.sql'', ''INSERT INTO users'')]\<rparr>))
     = [Ask (AskRestore ''users'' ''./backup_users_17.sql''), Query (Replay ''INSERT INTO users''),
        Err (RestoreFailed ''users''), Ask (AskDelete ''./backup_users_17.sql''),
        Info (BackupIgnored ''users'')]
   \<and> ''./backup_users_17.sql''
       \<notin> fst ` set (files (offerRestore replayFailEnv ''users''
            (emptyWorld\<lparr>files := [(''./backup_users_17.sql'', ''INSERT INTO users'')]\<rparr>)))
   \<and> map_of (files (offerRestore replayFailEnv ''users''
            (emptyWorld\<lparr>files := [(''./backup_users_17.sql'', ''INSERT INTO users'')]\<rparr>)))
         ''./backup_users_17.sql.ignored'' = Some ''INSERT INTO users''"
proof -
  let ?w = "emptyWorld\<lparr>files := [(''./backup_users_17.sql'', ''INSERT INTO users'')]\<rparr>"
  have lb: "latestBackup ''users'' (map fst (files ?w)) = Some ''./backup_users_17.sql''"
    by code_simp
  have yes: "isYes (operator replayFailEnv (AskRestore ''users'' ''./backup_users_17.sql''))"
    by code_simp
  have no: "\<not> isYes (operator replayFailEnv (AskDelete ''./backup_users_17.sql''))"
    by code_simp
  have content: "map_of (files ?w) ''./backup_users_17.sql'' = Some ''INSERT INTO users''"
    by (simp add: emptyWorld_def)
  have rejected: "\<not> execute replayFailEnv (issued ?w) (Replay ''INSERT INTO users'')"
    by (simp add: replayFailEnv_def quietEnv_def)
  from failed_replay_disposes_backup [OF lb yes content rejected] no
  show ?thesis by simp
qed

text \<open>
  C5 as stated fails: in this pass the replay of \<^verbatim>\<open>./backup_users_17.sql\<close> is rejected
  and logged, the pass goes on to the columns of \<^verbatim>\<open>users\<close>, and at its end the file is
  there under the name \<^verbatim>\<open>./backup_users_17.sql.ignored\<close> only.
\<close>

theorem failed_replay_counterexample:
  "syncAllTables replayFailEnv False
     (emptyWorld\<lparr>pendingModels := [plain_users],
                  files := [(''./backup_users_17.sql'', ''INSERT INTO users'')]\<rparr>)
   = Some (None,
       \<lparr>pendingModels = [],
        files = [(''./backup_users_17.sql.ignored'', ''INSERT INTO users'')],
        events =
          [Query ShowTables,
           Query (CreateTable (Some
             ''CREATE TABLE IF NOT EXISTS users (id INT(255) PRIMARY KEY) ENGINE=InnoDB'')),
           Info (TableReady ''users''),
           Ask (AskRestore ''users'' ''./backup_users_17.sql''),
           Query (Replay ''INSERT INTO users''),
           Err (RestoreFailed ''users''),
           Ask (AskDelete ''./backup_users_17.sql''),
           Info (BackupIgnored ''users''),
           Query (ShowColumns ''users''),
           Query (AddColumn ''users'' ''id'' ''id INT(255) PRIMARY KEY''),
           Info (ColumnAdded ''id'' ''users'')]\<rparr>)"
  by code_simp

subsection \<open>A reserved table name\<close>


subsection \<open>Orphan tables\<close>




lemma backupOrphan_pending [simp]: "pendingModels (backupOrphan env t w) = pendingModels w"
  by (auto simp: backupOrphan_def Let_def split: option.splits)


















subsection \<open>The pass as a whole\<close>





lemma syncAllTables_returns: "\<exists>r. syncAllTables env dangerousSync w = Some r"
proof -
  from creationOrder_returns obtain c where "creationOrder (pendingModels w) = Some c" by blast
  then show ?thesis
    by (auto simp: syncAllTables_def Let_def split: option.splits sum.splits prod.splits)
qed






subsection \<open>The registry after a pass\<close>







end
